theory Spec2Isabelle
  imports Complex_Main "HOL-Library.Word" "HOL-Library.Signed_Division" "HOL-Library.Monad_Syntax"
begin

section \<open>EMG fatigue monitor (firmware/examples/Leguiza_Perez/main/Leguiza_Perez.c)\<close>

text \<open>
  The firmware samples an EMG signal into a circular buffer from a timer interrupt and,
  on request, analyses the last window of samples: filters, FFT, spectral metrics and a
  fatigue classifier that compares the median frequency with a reference frequency.

  Conventions of the embedding.
  \<^item> A C \<^verbatim>\<open>float\<close> is an IEEE-754 binary32 value, \<open>f32\<close>: every arithmetic operation
    computes the exact real result and rounds it once, to nearest with ties to even, with
    overflow to an infinity, gradual underflow, signed zeros and NaN. Every operation of the
    source is rounded on its own: a product and the sum that uses it are not fused.
  \<^item> A C array is a list. Every indexed read and write goes through \<open>at_index\<close> and
    \<open>store_at\<close>, which yield \<open>None\<close> outside the array (undefined behaviour in C), so
    a function of the model is \<open>Some\<close> exactly when every access was inside its array.
  \<^item> \<^verbatim>\<open>uint16_t\<close> is \<open>16 word\<close>; a C \<^verbatim>\<open>int\<close> is an \<open>int\<close> that must stay below
    \<open>INT_MAX\<close>: an increment that would overflow (undefined behaviour) is \<open>None\<close>.
  \<^item> The C remainder \<^verbatim>\<open>%\<close> truncates towards zero: it is \<open>smod\<close>.
\<close>

subsection \<open>binary32 arithmetic\<close>

text \<open>
  A finite value is \<open>Fin x\<close> with \<open>x\<close> its real value (\<open>Fin 0\<close> is the positive zero);
  \<open>NegZero\<close> is the negative zero.
\<close>

datatype f32 = Fin real | NegZero | PInf | NInf | NaN

definition is_finite :: "f32 \<Rightarrow> bool" where
  "is_finite v = (case v of Fin x \<Rightarrow> True | NegZero \<Rightarrow> True | _ \<Rightarrow> False)"

definition fval :: "f32 \<Rightarrow> real" where
  "fval v = (case v of Fin x \<Rightarrow> x | _ \<Rightarrow> 0)"

text \<open>The sign bit: true for a negative value.\<close>

definition fsign :: "f32 \<Rightarrow> bool" where
  "fsign v = (case v of Fin x \<Rightarrow> x < 0 | NegZero \<Rightarrow> True | NInf \<Rightarrow> True | _ \<Rightarrow> False)"

definition fzero :: "f32 \<Rightarrow> bool" where
  "fzero v = (v = Fin 0 \<or> v = NegZero)"

definition zero_of :: "bool \<Rightarrow> f32" where
  "zero_of s = (if s then NegZero else Fin 0)"

definition inf_of :: "bool \<Rightarrow> f32" where
  "inf_of s = (if s then NInf else PInf)"

text \<open>Rounding a real to the nearest integer, a tie to the even one.\<close>

definition rne :: "real \<Rightarrow> int" where
  "rne q = (let n = \<lfloor>q\<rfloor>; d = q - real_of_int n
            in if d < 1 / 2 then n else if 1 / 2 < d then n + 1 else if even n then n else n + 1)"

text \<open>
  The exponent of the binade of \<open>x \<ge> 0\<close>, searched upwards from \<open>e\<close> and kept within
  \<open>- 126 .. 127\<close>: below \<open>2 powi (- 126)\<close> the values are subnormal and share the exponent
  \<open>- 126\<close>.
\<close>

function expo_from :: "int \<Rightarrow> real \<Rightarrow> int" where
  "expo_from e x = (if e < 127 \<and> 2 powi (e + 1) \<le> x then expo_from (e + 1) x else e)"
  by pat_completeness auto
termination
  by (relation "measure (\<lambda>(e, x). nat (127 - e))") auto

definition expo32 :: "real \<Rightarrow> int" where
  "expo32 y = expo_from (- 126) \<bar>y\<bar>"

text \<open>
  \<open>round32 s y\<close>: the binary32 value of the exact result \<open>y\<close>. The spacing of the values
  in the binade of \<open>y\<close> is \<open>2 powi (expo32 y - 23)\<close>; a result of magnitude \<open>2 ^ 128\<close> or
  more is an infinity; a non-zero \<open>y\<close> that rounds to zero keeps its sign; for \<open>y = 0\<close> the
  sign of the zero is \<open>s\<close>, given by the operation.
\<close>

definition round32 :: "bool \<Rightarrow> real \<Rightarrow> f32" where
  "round32 s y =
     (if y = 0 then zero_of s
      else
        let u = 2 powi (expo32 y - 23);
            r = real_of_int (rne (y / u)) * u
        in if 2 ^ 128 \<le> \<bar>r\<bar> then inf_of (y < 0)
           else if r = 0 then zero_of (y < 0)
           else Fin r)"

text \<open>A finite \<open>f32\<close> is a value of the format when rounding leaves it as it is.\<close>

definition representable :: "f32 \<Rightarrow> bool" where
  "representable v = (case v of Fin x \<Rightarrow> round32 False x = Fin x | _ \<Rightarrow> True)"

text \<open>
  Addition: an exact zero sum is negative only when both operands are negative zeros or
  negative (which leaves the two negative zeros); infinities of opposite sign give NaN.
\<close>

definition fadd :: "f32 \<Rightarrow> f32 \<Rightarrow> f32" where
  "fadd a b =
     (if a = NaN \<or> b = NaN then NaN
      else if is_finite a \<and> is_finite b then round32 (fsign a \<and> fsign b) (fval a + fval b)
      else if is_finite b then a
      else if is_finite a then b
      else if a = b then a
      else NaN)"

definition fneg :: "f32 \<Rightarrow> f32" where
  "fneg a =
     (case a of
        Fin x \<Rightarrow> if x = 0 then NegZero else Fin (- x)
      | NegZero \<Rightarrow> Fin 0
      | PInf \<Rightarrow> NInf
      | NInf \<Rightarrow> PInf
      | NaN \<Rightarrow> NaN)"

definition fsub :: "f32 \<Rightarrow> f32 \<Rightarrow> f32" where
  "fsub a b = fadd a (fneg b)"

definition fmul :: "f32 \<Rightarrow> f32 \<Rightarrow> f32" where
  "fmul a b =
     (if a = NaN \<or> b = NaN then NaN
      else if is_finite a \<and> is_finite b then round32 (fsign a \<noteq> fsign b) (fval a * fval b)
      else if fzero a \<or> fzero b then NaN
      else inf_of (fsign a \<noteq> fsign b))"

definition fdiv :: "f32 \<Rightarrow> f32 \<Rightarrow> f32" where
  "fdiv a b =
     (if a = NaN \<or> b = NaN then NaN
      else if is_finite a \<and> is_finite b then
        (if fval b = 0 then (if fval a = 0 then NaN else inf_of (fsign a \<noteq> fsign b))
         else round32 (fsign a \<noteq> fsign b) (fval a / fval b))
      else if is_finite b then inf_of (fsign a \<noteq> fsign b)
      else if is_finite a then zero_of (fsign a \<noteq> fsign b)
      else NaN)"

text \<open>The comparisons \<^verbatim>\<open>>\<close> and \<^verbatim>\<open>>=\<close>: false when an operand is NaN; the zeros are equal.\<close>

definition fgt :: "f32 \<Rightarrow> f32 \<Rightarrow> bool" where
  "fgt a b =
     (a \<noteq> NaN \<and> b \<noteq> NaN \<and>
      (if is_finite a \<and> is_finite b then fval b < fval a
       else (a = PInf \<and> b \<noteq> PInf) \<or> (b = NInf \<and> a \<noteq> NInf)))"

definition fge :: "f32 \<Rightarrow> f32 \<Rightarrow> bool" where
  "fge a b =
     (a \<noteq> NaN \<and> b \<noteq> NaN \<and>
      (if is_finite a \<and> is_finite b then fval b \<le> fval a
       else a = PInf \<or> b = NInf))"

text \<open>\<^verbatim>\<open>sqrtf\<close>, correctly rounded; the conversion of an \<open>int\<close> to \<open>float\<close>.\<close>

definition fsqrt :: "f32 \<Rightarrow> f32" where
  "fsqrt a =
     (case a of
        Fin x \<Rightarrow> if x < 0 then NaN else round32 False (sqrt x)
      | NegZero \<Rightarrow> NegZero
      | PInf \<Rightarrow> PInf
      | NInf \<Rightarrow> NaN
      | NaN \<Rightarrow> NaN)"

definition f32_of_int :: "int \<Rightarrow> f32" where
  "f32_of_int n = round32 False (real_of_int n)"

subsection \<open>Macros\<close>

definition BUFFER_SIZE :: int where
  "BUFFER_SIZE = 512"

definition EMG_BUFFER_LEN :: int where
  "EMG_BUFFER_LEN = 512"

definition SAMPLE_FREQ :: int where
  "SAMPLE_FREQ = 512"

text \<open>\<^verbatim>\<open>0.15f\<close> is the binary32 value nearest to 0.15, which is \<open>5033165 / 2 ^ 25\<close>.\<close>

definition FATIGUE_THRESHOLD :: f32 where
  "FATIGUE_THRESHOLD = Fin (5033165 / 33554432)"

definition BASELINE_WINDOWS :: int where
  "BASELINE_WINDOWS = 5"

definition CONSECUTIVE_WINDOWS :: int where
  "CONSECUTIVE_WINDOWS = 3"

definition INT_MAX :: int where
  "INT_MAX = 2147483647"

subsection \<open>Array access\<close>

definition at_index :: "'a list \<Rightarrow> int \<Rightarrow> 'a option" where
  "at_index xs i = (if 0 \<le> i \<and> i < int (length xs) then Some (xs ! nat i) else None)"

definition store_at :: "'a list \<Rightarrow> int \<Rightarrow> 'a \<Rightarrow> 'a list option" where
  "store_at xs i v = (if 0 \<le> i \<and> i < int (length xs) then Some (xs[nat i := v]) else None)"

subsection \<open>Spectral metrics\<close>

text \<open>
  \<^verbatim>\<open>CalcRMS\<close>: the loop adds the squares of \<open>data[0..len-1]\<close> (the accumulator
  \<open>sum\<close> of the source is \<open>acc\<close> here); the result is \<open>sqrtf(sum / len)\<close>, with \<open>len\<close>
  converted to \<open>float\<close>.
\<close>

function CalcRMS_loop :: "f32 list \<Rightarrow> int \<Rightarrow> int \<Rightarrow> f32 \<Rightarrow> f32 option" where
  "CalcRMS_loop data len i acc =
     (if i < len then
        (case at_index data i of
           None \<Rightarrow> None
         | Some d \<Rightarrow> CalcRMS_loop data len (i + 1) (fadd acc (fmul d d)))
      else Some acc)"
  by pat_completeness auto
termination
  by (relation "measure (\<lambda>(data, len, i, acc). nat (len - i))") auto

definition CalcRMS :: "f32 list \<Rightarrow> int \<Rightarrow> f32 option" where
  "CalcRMS data len =
     (case CalcRMS_loop data len 0 (Fin 0) of
        None \<Rightarrow> None
      | Some acc \<Rightarrow> Some (fsqrt (fdiv acc (f32_of_int len))))"

text \<open>
  \<^verbatim>\<open>CalcMeanFreq\<close>: one loop accumulates \<open>num += freqs[i] * fft_mag[i]\<close> and
  \<open>den += fft_mag[i]\<close>; the result is \<open>(den > 0) ? num / den : 0.0f\<close>.
\<close>

function CalcMeanFreq_loop ::
  "f32 list \<Rightarrow> f32 list \<Rightarrow> int \<Rightarrow> int \<Rightarrow> f32 \<Rightarrow> f32 \<Rightarrow> (f32 \<times> f32) option" where
  "CalcMeanFreq_loop fft_mag freqs len i num den =
     (if i < len then
        (case at_index freqs i of
           None \<Rightarrow> None
         | Some fi \<Rightarrow>
            (case at_index fft_mag i of
               None \<Rightarrow> None
             | Some mi \<Rightarrow>
                CalcMeanFreq_loop fft_mag freqs len (i + 1)
                  (fadd num (fmul fi mi)) (fadd den mi)))
      else Some (num, den))"
  by pat_completeness auto
termination
  by (relation "measure (\<lambda>(fft_mag, freqs, len, i, num, den). nat (len - i))") auto

definition CalcMeanFreq :: "f32 list \<Rightarrow> f32 list \<Rightarrow> int \<Rightarrow> f32 option" where
  "CalcMeanFreq fft_mag freqs len =
     (case CalcMeanFreq_loop fft_mag freqs len 0 (Fin 0) (Fin 0) of
        None \<Rightarrow> None
      | Some (num, den) \<Rightarrow> Some (if fgt den (Fin 0) then fdiv num den else Fin 0))"

text \<open>
  \<^verbatim>\<open>CalcMedianFreq\<close>: the first loop computes \<open>total\<close> (here \<open>tot\<close>); \<open>half\<close> is
  \<open>total / 2.0f\<close>; the second loop accumulates the magnitudes and returns \<open>freqs[i]\<close> at
  the first \<open>i\<close> with \<open>accum >= half\<close>; when the loop ends without returning, the result
  is \<open>freqs[len - 1]\<close>.
\<close>

function CalcMedianFreq_total :: "f32 list \<Rightarrow> int \<Rightarrow> int \<Rightarrow> f32 \<Rightarrow> f32 option" where
  "CalcMedianFreq_total fft_mag len i tot =
     (if i < len then
        (case at_index fft_mag i of
           None \<Rightarrow> None
         | Some mi \<Rightarrow> CalcMedianFreq_total fft_mag len (i + 1) (fadd tot mi))
      else Some tot)"
  by pat_completeness auto
termination
  by (relation "measure (\<lambda>(fft_mag, len, i, tot). nat (len - i))") auto

function CalcMedianFreq_scan ::
  "f32 list \<Rightarrow> f32 list \<Rightarrow> int \<Rightarrow> f32 \<Rightarrow> int \<Rightarrow> f32 \<Rightarrow> f32 option" where
  "CalcMedianFreq_scan fft_mag freqs len half i accum =
     (if i < len then
        (case at_index fft_mag i of
           None \<Rightarrow> None
         | Some mi \<Rightarrow>
            if fge (fadd accum mi) half then at_index freqs i
            else CalcMedianFreq_scan fft_mag freqs len half (i + 1) (fadd accum mi))
      else at_index freqs (len - 1))"
  by pat_completeness auto
termination
  by (relation "measure (\<lambda>(fft_mag, freqs, len, half, i, accum). nat (len - i))") auto

definition CalcMedianFreq :: "f32 list \<Rightarrow> f32 list \<Rightarrow> int \<Rightarrow> f32 option" where
  "CalcMedianFreq fft_mag freqs len =
     (case CalcMedianFreq_total fft_mag len 0 (Fin 0) of
        None \<Rightarrow> None
      | Some tot \<Rightarrow> CalcMedianFreq_scan fft_mag freqs len (fdiv tot (Fin 2)) 0 (Fin 0))"

text \<open>
  The sums that the two loops of \<^verbatim>\<open>CalcMeanFreq\<close> compute, written as folds from the left
  in binary32: the sum of the magnitudes, and the sum of the products of the frequencies
  with the magnitudes.
\<close>

definition sum32 :: "f32 list \<Rightarrow> f32" where
  "sum32 xs = foldl fadd (Fin 0) xs"

definition weighted_sum32 :: "f32 list \<Rightarrow> f32 list \<Rightarrow> f32" where
  "weighted_sum32 freqs mags = foldl (\<lambda>acc (fi, mi). fadd acc (fmul fi mi)) (Fin 0) (zip freqs mags)"

subsection \<open>The circular buffer\<close>

text \<open>
  The statics \<open>emg_buffer\<close>, \<open>write_index\<close> and \<open>sample_count\<close>. The macros
  \<open>EMG_BUFFER_LEN\<close> (capacity) and \<open>BUFFER_SIZE\<close> (window length) are the parameters
  \<open>LEN\<close> and \<open>SIZE\<close> of the two buffer functions; the firmware calls them with 512 and
  512. A remainder by \<open>LEN = 0\<close> is undefined in C and \<open>None\<close> here.
\<close>

record ring_buffer =
  emg_buffer :: "f32 list"
  write_index :: "16 word"
  sample_count :: "16 word"

definition ring_boot :: "int \<Rightarrow> ring_buffer" where
  "ring_boot LEN = \<lparr>emg_buffer = replicate (nat LEN) (Fin 0), write_index = 0, sample_count = 0\<rparr>"

definition CircularBufferWrite :: "int \<Rightarrow> f32 \<Rightarrow> ring_buffer \<Rightarrow> ring_buffer option" where
  "CircularBufferWrite LEN sample rb =
     (if LEN = 0 then None
      else
        (case store_at (emg_buffer rb) (uint (write_index rb)) sample of
           None \<Rightarrow> None
         | Some buf \<Rightarrow>
             Some \<lparr>emg_buffer = buf,
                   write_index = word_of_int ((uint (write_index rb) + 1) smod LEN),
                   sample_count =
                     (if uint (sample_count rb) < LEN then sample_count rb + 1
                      else sample_count rb)\<rparr>))"

text \<open>The timer interrupt converts the 16-bit ADC reading to \<open>float\<close> and writes it.\<close>

definition EMG_TimerISR :: "16 word \<Rightarrow> ring_buffer \<Rightarrow> ring_buffer option" where
  "EMG_TimerISR adc_val rb = CircularBufferWrite EMG_BUFFER_LEN (f32_of_int (uint adc_val)) rb"

text \<open>A sequence of writes, oldest sample first.\<close>

fun write_samples :: "int \<Rightarrow> f32 list \<Rightarrow> ring_buffer \<Rightarrow> ring_buffer option" where
  "write_samples LEN [] rb = Some rb"
| "write_samples LEN (x # xs) rb =
     (case CircularBufferWrite LEN x rb of
        None \<Rightarrow> None
      | Some rb' \<Rightarrow> write_samples LEN xs rb')"

text \<open>
  \<^verbatim>\<open>CircularBufferReadWindow\<close> returns nothing: with fewer than \<open>SIZE\<close> valid samples it
  returns before the copy and the caller's array keeps its contents. The model returns
  the contents of \<open>window\<close> after the call.
\<close>

function CircularBufferReadWindow_loop ::
  "int \<Rightarrow> int \<Rightarrow> f32 list \<Rightarrow> int \<Rightarrow> int \<Rightarrow> f32 list \<Rightarrow> f32 list option" where
  "CircularBufferReadWindow_loop SIZE LEN buf start i window =
     (if i < SIZE then
        (case at_index buf ((start + i) smod LEN) of
           None \<Rightarrow> None
         | Some v \<Rightarrow>
            (case store_at window i v of
               None \<Rightarrow> None
             | Some window' \<Rightarrow> CircularBufferReadWindow_loop SIZE LEN buf start (i + 1) window'))
      else Some window)"
  by pat_completeness auto
termination
  by (relation "measure (\<lambda>(SIZE, LEN, buf, start, i, window). nat (SIZE - i))") auto

definition CircularBufferReadWindow ::
  "int \<Rightarrow> int \<Rightarrow> ring_buffer \<Rightarrow> f32 list \<Rightarrow> f32 list option" where
  "CircularBufferReadWindow SIZE LEN rb window =
     (if uint (sample_count rb) < SIZE then Some window
      else if LEN = 0 then None
      else
        let start = (word_of_int ((uint (write_index rb) - SIZE + LEN) smod LEN) :: 16 word)
        in CircularBufferReadWindow_loop SIZE LEN (emg_buffer rb) (uint start) 0 window)"

subsection \<open>The analysis task\<close>

text \<open>
  The statics read and written by \<^verbatim>\<open>EMGTask\<close>, with the two function-level statics
  \<open>f_ref_established\<close> and \<open>f_ref_accum\<close>. The array \<open>f\<close> of the source is \<open>f_axis\<close>.
\<close>

record analysis =
  emg_window :: "f32 list"
  emg_filt :: "f32 list"
  emg_fft :: "f32 list"
  emg_filt_fft :: "f32 list"
  f_axis :: "f32 list"
  f_ref :: f32
  f_mean :: f32
  f_median :: f32
  rms_value :: f32
  window_counter :: int
  fatigue_consecutive :: int
  fatigue_detected :: bool
  f_ref_established :: bool
  f_ref_accum :: f32

definition analysis_boot :: analysis where
  "analysis_boot =
     \<lparr>emg_window = replicate (nat BUFFER_SIZE) (Fin 0),
      emg_filt = replicate (nat BUFFER_SIZE) (Fin 0),
      emg_fft = replicate (nat (BUFFER_SIZE sdiv 2)) (Fin 0),
      emg_filt_fft = replicate (nat (BUFFER_SIZE sdiv 2)) (Fin 0),
      f_axis = replicate (nat (BUFFER_SIZE sdiv 2)) (Fin 0),
      f_ref = Fin 0, f_mean = Fin 0, f_median = Fin 0, rms_value = Fin 0,
      window_counter = 0, fatigue_consecutive = 0, fatigue_detected = False,
      f_ref_established = False, f_ref_accum = Fin 0\<rparr>"

text \<open>The increment of a C \<open>int\<close>: undefined at \<open>INT_MAX\<close>.\<close>

definition c_incr :: "int \<Rightarrow> int option" where
  "c_incr n = (if n < INT_MAX then Some (n + 1) else None)"

text \<open>
  The text of \<^verbatim>\<open>EMGTask\<close> has one closing brace fewer than opening ones. The model takes
  the braces as they stand: the block opened by \<^verbatim>\<open>else if(f_ref > 0.0f){\<close> (line 269) is
  closed by the brace of line 336, so the statements of lines 293 to 335 are inside it
  (whatever their indentation), the brace of line 337 closes the loop, and the brace that
  is missing is the last one of the function.

  Lines 270 to 289, the first statements of that block: the drop is compared with the
  threshold; a drop above it is counted and, at \<open>CONSECUTIVE_WINDOWS\<close>, latched. There is
  no \<open>else\<close> here for a drop at or below the threshold.
\<close>

definition EMGTask_drop_block :: "analysis \<Rightarrow> analysis option" where
  "EMGTask_drop_block a =
     (let drop = fdiv (fsub (f_ref a) (f_median a)) (f_ref a)
      in if fgt drop FATIGUE_THRESHOLD then
           (case c_incr (fatigue_consecutive a) of
              None \<Rightarrow> None
            | Some n \<Rightarrow>
                let a1 = a\<lparr>fatigue_consecutive := n\<rparr>
                in Some (if fatigue_consecutive a1 \<ge> CONSECUTIVE_WINDOWS \<and> \<not> fatigue_detected a1
                         then a1\<lparr>fatigue_detected := True\<rparr>
                         else a1))
         else Some a)"

text \<open>
  Lines 293 to 335: until \<open>f_ref_established\<close>, the median is added to \<open>f_ref_accum\<close> while
  \<open>window_counter <= BASELINE_WINDOWS\<close>, and at window \<open>BASELINE_WINDOWS\<close> the reference is
  set from it; once established, the drop is evaluated again, here with the reset of the
  counter in the \<open>else\<close>.
\<close>

definition EMGTask_baseline_block :: "analysis \<Rightarrow> analysis option" where
  "EMGTask_baseline_block a =
     (if \<not> f_ref_established a then
        let a1 = (if window_counter a \<le> BASELINE_WINDOWS
                  then a\<lparr>f_ref_accum := fadd (f_ref_accum a) (f_median a)\<rparr>
                  else a)
        in Some (if window_counter a1 = BASELINE_WINDOWS
                 then a1\<lparr>f_ref := fdiv (f_ref_accum a1) (f32_of_int BASELINE_WINDOWS),
                         f_ref_established := True\<rparr>
                 else a1)
      else if fgt (f_ref a) (Fin 0) then
        let drop = fdiv (fsub (f_ref a) (f_median a)) (f_ref a)
        in if fgt drop FATIGUE_THRESHOLD then
             (case c_incr (fatigue_consecutive a) of
                None \<Rightarrow> None
              | Some n \<Rightarrow>
                  let a1 = a\<lparr>fatigue_consecutive := n\<rparr>
                  in Some (if fatigue_consecutive a1 \<ge> CONSECUTIVE_WINDOWS \<and> \<not> fatigue_detected a1
                           then a1\<lparr>fatigue_detected := True\<rparr>
                           else a1))
           else Some (a\<lparr>fatigue_consecutive := 0\<rparr>)
      else Some a)"

text \<open>
  Lines 259 to 336: while \<open>window_counter <= BASELINE_WINDOWS\<close> the median is added to
  \<open>f_ref\<close> itself, which is divided by \<open>BASELINE_WINDOWS\<close> at the last baseline window;
  afterwards, with \<open>f_ref > 0\<close>, the two blocks above run one after the other.
\<close>

definition EMGTask_reference_block :: "analysis \<Rightarrow> analysis option" where
  "EMGTask_reference_block a =
     (if window_counter a \<le> BASELINE_WINDOWS then
        let a1 = a\<lparr>f_ref := fadd (f_ref a) (f_median a)\<rparr>
        in Some (if window_counter a1 = BASELINE_WINDOWS
                 then a1\<lparr>f_ref := fdiv (f_ref a1) (f32_of_int BASELINE_WINDOWS)\<rparr>
                 else a1)
      else if fgt (f_ref a) (Fin 0) then
        do {
          a1 \<leftarrow> EMGTask_drop_block a;
          EMGTask_baseline_block a1
        }
      else Some a)"

text \<open>
  The part of the loop body after the FFT (lines 231 to 336), given the three metrics of
  the window: \<open>window_counter++\<close>, the metrics are stored, then the classifier. The
  messages sent over BLE (\<open>sprintf\<close>, \<open>BleSendString\<close>, \<open>vTaskDelay\<close>) write no static
  and are left out.
\<close>

definition EMGTask_window :: "f32 \<Rightarrow> f32 \<Rightarrow> f32 \<Rightarrow> analysis \<Rightarrow> analysis option" where
  "EMGTask_window rms mean median a =
     do {
       n \<leftarrow> c_incr (window_counter a);
       EMGTask_reference_block
         (a\<lparr>window_counter := n, rms_value := rms, f_mean := mean, f_median := median\<rparr>)
     }"

text \<open>A session of the classifier: one median frequency per analysed window, in order.\<close>

fun EMGTask_medians :: "f32 list \<Rightarrow> analysis \<Rightarrow> analysis option" where
  "EMGTask_medians [] a = Some a"
| "EMGTask_medians (m # ms) a =
     (case EMGTask_window (rms_value a) (f_mean a) m a of
        None \<Rightarrow> None
      | Some a' \<Rightarrow> EMGTask_medians ms a')"

text \<open>
  The indentation of the source suggests another reading, with the missing brace after
  line 290: the block of line 269 ends there, and lines 293 to 335 run in every window,
  after lines 259 to 290. \<open>EMGTask_window_indented\<close> is the loop body under that
  reading. It is not the text of the source; it serves to tell which results depend on
  the place of the missing brace.
\<close>

definition EMGTask_reference_block_indented :: "analysis \<Rightarrow> analysis option" where
  "EMGTask_reference_block_indented a =
     (if window_counter a \<le> BASELINE_WINDOWS then
        let a1 = a\<lparr>f_ref := fadd (f_ref a) (f_median a)\<rparr>
        in Some (if window_counter a1 = BASELINE_WINDOWS
                 then a1\<lparr>f_ref := fdiv (f_ref a1) (f32_of_int BASELINE_WINDOWS)\<rparr>
                 else a1)
      else if fgt (f_ref a) (Fin 0) then EMGTask_drop_block a
      else Some a)"

definition EMGTask_window_indented :: "f32 \<Rightarrow> f32 \<Rightarrow> f32 \<Rightarrow> analysis \<Rightarrow> analysis option" where
  "EMGTask_window_indented rms mean median a =
     do {
       n \<leftarrow> c_incr (window_counter a);
       a1 \<leftarrow> EMGTask_reference_block_indented
               (a\<lparr>window_counter := n, rms_value := rms, f_mean := mean, f_median := median\<rparr>);
       EMGTask_baseline_block a1
     }"

fun EMGTask_medians_indented :: "f32 list \<Rightarrow> analysis \<Rightarrow> analysis option" where
  "EMGTask_medians_indented [] a = Some a"
| "EMGTask_medians_indented (m # ms) a =
     (case EMGTask_window_indented (rms_value a) (f_mean a) m a of
        None \<Rightarrow> None
      | Some a' \<Rightarrow> EMGTask_medians_indented ms a')"

text \<open>
  The filter and FFT kernels (\<^verbatim>\<open>iir_filter.h\<close>, \<^verbatim>\<open>fft.h\<close>) are not part of the source
  file: they are parameters. A filter maps its internal state and the input array to the
  contents of the output array and its next state; the FFT kernels are functions.
\<close>

record 'k kernels =
  HiPassFilter :: "'k \<Rightarrow> f32 list \<Rightarrow> int \<Rightarrow> f32 list \<times> 'k"
  LowPassFilter :: "'k \<Rightarrow> f32 list \<Rightarrow> int \<Rightarrow> f32 list \<times> 'k"
  FFTMagnitude :: "f32 list \<Rightarrow> int \<Rightarrow> f32 list"
  FFTFrequency :: "int \<Rightarrow> int \<Rightarrow> f32 list"

text \<open>
  The loop body from the filters on (lines 221 to 336), on the contents \<open>window\<close> of
  \<open>emg_window\<close>: high-pass, then low-pass in place on \<open>emg_filt\<close>, the two spectra and the
  frequency axis, the three metrics of the filtered signal, and the classifier.
\<close>

definition EMGTask_analyse ::
  "'k kernels \<Rightarrow> f32 list \<Rightarrow> analysis \<times> 'k \<Rightarrow> (analysis \<times> 'k) option" where
  "EMGTask_analyse K window s =
     (case s of (a, k) \<Rightarrow>
       do {
         let (filt_hp, k1) = HiPassFilter K k window BUFFER_SIZE;
         let (filt, k2) = LowPassFilter K k1 filt_hp BUFFER_SIZE;
         let fft = FFTMagnitude K window BUFFER_SIZE;
         let filt_fft = FFTMagnitude K filt BUFFER_SIZE;
         let freqs = FFTFrequency K SAMPLE_FREQ BUFFER_SIZE;
         rms \<leftarrow> CalcRMS filt BUFFER_SIZE;
         mean \<leftarrow> CalcMeanFreq filt_fft freqs (BUFFER_SIZE sdiv 2);
         median \<leftarrow> CalcMedianFreq filt_fft freqs (BUFFER_SIZE sdiv 2);
         a' \<leftarrow> EMGTask_window rms mean median
                 (a\<lparr>emg_window := window, emg_filt := filt, emg_fft := fft,
                    emg_filt_fft := filt_fft, f_axis := freqs\<rparr>);
         Some (a', k2)
       })"

text \<open>
  One pass of the \<^verbatim>\<open>while(true)\<close> body of \<^verbatim>\<open>EMGTask\<close>, after the notification has been
  taken. \<^verbatim>\<open>CircularBufferReadWindow\<close> returns no value and the body tests nothing after the
  call: the analysis runs on \<open>emg_window\<close> whatever it holds.
\<close>

definition EMGTask_cycle ::
  "'k kernels \<Rightarrow> ring_buffer \<Rightarrow> analysis \<times> 'k \<Rightarrow> (analysis \<times> 'k) option" where
  "EMGTask_cycle K rb s =
     do {
       window \<leftarrow> CircularBufferReadWindow BUFFER_SIZE EMG_BUFFER_LEN rb (emg_window (fst s));
       EMGTask_analyse K window s
     }"

text \<open>
  Kernels for a signal that is identically zero, with filters at rest: the filters pass
  their input on, the magnitude spectrum is zero and the frequency axis has the bins
  \<open>i * fs / n\<close>. They stand for the kernels at boot, when every array is zero.
\<close>

definition idle_kernels :: "unit kernels" where
  "idle_kernels =
     \<lparr>HiPassFilter = (\<lambda>k x n. (x, k)),
      LowPassFilter = (\<lambda>k x n. (x, k)),
      FFTMagnitude = (\<lambda>x n. replicate (nat (n sdiv 2)) (Fin 0)),
      FFTFrequency = (\<lambda>fs n. map (\<lambda>i. fdiv (f32_of_int (fs * int i)) (f32_of_int n))
                                    [0..<nat (n sdiv 2)])\<rparr>"

subsection \<open>The BLE command callback\<close>

text \<open>
  \<^verbatim>\<open>read_data\<close> looks at \<open>data[0]\<close> only; \<open>length\<close> is not used. Its effects are calls
  into FreeRTOS and the BLE driver, recorded in order. The statics of the file are the
  ring buffer and the analysis state.
\<close>

datatype action = TaskNotifyGive | BleSendString string | TaskDelay_ms nat

definition read_data ::
  "string \<Rightarrow> ring_buffer \<times> analysis \<Rightarrow> ((ring_buffer \<times> analysis) \<times> action list) option" where
  "read_data data st =
     (case data of
        [] \<Rightarrow> None
      | c # _ \<Rightarrow>
          if c = CHR ''R'' then Some (st, [TaskNotifyGive])
          else if c = CHR ''B'' then
            Some (st, [BleSendString ''*HC*'', TaskDelay_ms 50,
                       BleSendString (''*TLimpieza completada*'' @ [CHR 0x0A])])
          else Some (st, []))"

subsection \<open>Invariants\<close>

text \<open>
  \<open>ring_holds LEN rb xs\<close>: the buffer of capacity \<open>LEN\<close> is in the state reached by
  writing the samples \<open>xs\<close> after boot. The cursor is the number of writes modulo \<open>LEN\<close>,
  the count saturates at \<open>LEN\<close>, and the \<open>k\<close>-th sample, while it is among the last
  \<open>LEN\<close>, is in slot \<open>k mod LEN\<close>.
\<close>

definition ring_holds :: "int \<Rightarrow> ring_buffer \<Rightarrow> f32 list \<Rightarrow> bool" where
  "ring_holds LEN rb xs =
     (int (length (emg_buffer rb)) = LEN \<and>
      uint (write_index rb) = int (length xs) mod LEN \<and>
      uint (sample_count rb) = min (int (length xs)) LEN \<and>
      (\<forall>k. k < length xs \<and> int (length xs) \<le> int k + LEN \<longrightarrow>
           emg_buffer rb ! nat (int k mod LEN) = xs ! k))"

subsection \<open>Scaling the magnitudes\<close>

text \<open>
  The magnitudes multiplied by \<open>k\<close>, each product rounded to binary32.
\<close>

definition scale_mag :: "f32 \<Rightarrow> f32 list \<Rightarrow> f32 list" where
  "scale_mag k fft_mag = map (fmul k) fft_mag"

text \<open>
  The exact value of a finite \<open>f32\<close> multiplied by \<open>2 powi j\<close>; a zero, an infinity and
  NaN are left as they are.
\<close>

definition scale2 :: "int \<Rightarrow> f32 \<Rightarrow> f32" where
  "scale2 j v = (case v of Fin x \<Rightarrow> Fin (x * 2 powi j) | _ \<Rightarrow> v)"

text \<open>
  An exact result \<open>y\<close> is in the normal range when it is zero or
  \<open>2 powi (- 126) \<le> \<bar>y\<bar> < 2 ^ 127\<close>: it neither underflows to a subnormal value nor
  overflows. \<open>op_safe j y\<close>: both \<open>y\<close> and \<open>y * 2 powi j\<close> are in the normal range.
\<close>

definition in_normal_range :: "real \<Rightarrow> bool" where
  "in_normal_range y = (y = 0 \<or> (2 powi (- 126) \<le> \<bar>y\<bar> \<and> \<bar>y\<bar> < 2 ^ 127))"

definition op_safe :: "int \<Rightarrow> real \<Rightarrow> bool" where
  "op_safe j y = (in_normal_range y \<and> in_normal_range (y * 2 powi j))"

text \<open>
  \<open>adds_safe j acc xs\<close>: every addition of the running sum \<open>acc += x\<close> over \<open>xs\<close> has an
  exact result in the normal range, also when scaled by \<open>2 powi j\<close>. \<open>weighted_safe\<close> is
  the same for the running sum \<open>acc += fi * mi\<close> and its products.
\<close>

fun adds_safe :: "int \<Rightarrow> f32 \<Rightarrow> f32 list \<Rightarrow> bool" where
  "adds_safe j acc [] = True"
| "adds_safe j acc (x # xs) = (op_safe j (fval acc + fval x) \<and> adds_safe j (fadd acc x) xs)"

fun weighted_safe :: "int \<Rightarrow> f32 \<Rightarrow> (f32 \<times> f32) list \<Rightarrow> bool" where
  "weighted_safe j acc [] = True"
| "weighted_safe j acc ((fi, mi) # r) =
     (op_safe j (fval fi * fval mi) \<and> op_safe j (fval acc + fval (fmul fi mi)) \<and>
      weighted_safe j (fadd acc (fmul fi mi)) r)"

text \<open>
  The magnitudes are values of the format whose scaling by \<open>2 powi j\<close> stays in the
  normal range.
\<close>

definition mags_safe :: "int \<Rightarrow> f32 list \<Rightarrow> bool" where
  "mags_safe j xs = list_all (\<lambda>m. representable m \<and> op_safe j (fval m)) xs"

text \<open>
  No operation of \<^verbatim>\<open>CalcMeanFreq\<close> and \<^verbatim>\<open>CalcMedianFreq\<close> on the first \<open>len\<close>
  magnitudes leaves the normal range, with or without the scaling by \<open>2 powi j\<close>: the
  magnitudes, the products, the running sums and \<open>total / 2\<close>.
\<close>

definition spectrum_safe :: "int \<Rightarrow> f32 list \<Rightarrow> f32 list \<Rightarrow> int \<Rightarrow> bool" where
  "spectrum_safe j fft_mag freqs len =
     (mags_safe j (take (nat len) fft_mag) \<and>
      weighted_safe j (Fin 0) (zip (take (nat len) freqs) (take (nat len) fft_mag)) \<and>
      adds_safe j (Fin 0) (take (nat len) fft_mag) \<and>
      op_safe j (fval (sum32 (take (nat len) fft_mag)) / 2))"

text \<open>The loops are unfolded by hand in the proofs, one iteration at a time.\<close>

declare expo_from.simps [simp del]
declare CalcRMS_loop.simps [simp del]
declare CalcMeanFreq_loop.simps [simp del]
declare CalcMedianFreq_total.simps [simp del]
declare CalcMedianFreq_scan.simps [simp del]
declare CircularBufferReadWindow_loop.simps [simp del]

section \<open>Properties\<close>

subsection \<open>binary32 arithmetic\<close>

lemma expo_from_eq:
  "s \<le> e \<Longrightarrow> e \<le> 127 \<Longrightarrow> 2 powi e \<le> x \<or> e = s \<Longrightarrow> (e < 127 \<Longrightarrow> x < 2 powi (e + 1)) \<Longrightarrow>
   expo_from s x = e"
proof (induction s x rule: expo_from.induct)
  case (1 s x)
  show ?case
  proof (cases "s = e")
    case True
    then show ?thesis using "1.prems" by (subst expo_from.simps) auto
  next
    case False
    then have lt: "s < e" using "1.prems" by simp
    have "(2::real) powi (s + 1) \<le> 2 powi e"
      using lt by (intro power_int_increasing) simp_all
    then have c: "s < 127 \<and> 2 powi (s + 1) \<le> x" using lt False "1.prems" by auto
    have "expo_from (s + 1) x = e"
      using "1.IH" [OF c] lt False "1.prems" by auto
    then show ?thesis using c by (subst expo_from.simps) simp
  qed
qed

lemma round32_zero [simp]: "round32 s 0 = zero_of s"
  by (simp add: round32_def)

lemma rne_bounds:
  assumes "real_of_int a \<le> q" and "q \<le> real_of_int b"
  shows "a \<le> rne q \<and> rne q \<le> b"
proof -
  have f: "a \<le> \<lfloor>q\<rfloor>" using assms(1) by (simp add: le_floor_iff)
  have c: "\<lfloor>q\<rfloor> \<le> b" using assms(2) by (simp add: floor_le_iff)  
  show ?thesis
  proof (cases "q = real_of_int \<lfloor>q\<rfloor>")
    case True
    then have "q - real_of_int \<lfloor>q\<rfloor> < 1 / 2" by simp
    then have "rne q = \<lfloor>q\<rfloor>" by (simp add: rne_def Let_def)
    then show ?thesis using f c by simp
  next
    case False
    then have "real_of_int \<lfloor>q\<rfloor> < q" by (metis of_int_floor_le order_less_le)
    then have "real_of_int \<lfloor>q\<rfloor> < real_of_int b" using assms(2) by linarith
    then have "\<lfloor>q\<rfloor> + 1 \<le> b" by simp
    moreover have "rne q = \<lfloor>q\<rfloor> \<or> rne q = \<lfloor>q\<rfloor> + 1" by (auto simp: rne_def Let_def)
    ultimately show ?thesis using f by auto
  qed
qed

text \<open>
  A value of the normal range below \<open>2 ^ 24\<close>: when \<open>\<bar>y\<bar> * 2 ^ k\<close> lies in
  \<open>2 ^ 23 ..< 2 ^ 24\<close>, the range of the 24-bit significands, \<open>y\<close> rounds to the
  nearest multiple of \<open>1 / 2 ^ k\<close>.
\<close>

lemma round32_up:
  assumes lo: "2 ^ 23 \<le> \<bar>y\<bar> * 2 ^ k" and hi: "\<bar>y\<bar> * 2 ^ k < 2 ^ 24" and k: "k \<le> 149"
  shows "round32 s y = Fin (real_of_int (rne (y * 2 ^ k)) / 2 ^ k)"
proof -
  let ?e = "23 - int k"
  have p: "(2::real) powi ?e = 2 ^ 23 / 2 ^ k"
    by (simp add: power_int_diff)
  have p1: "(2::real) powi (24 - int k) = 2 ^ 24 / 2 ^ k"
    by (simp add: power_int_diff)
  have e: "expo32 y = ?e"
    unfolding expo32_def
  proof (rule expo_from_eq)
    show "- 126 \<le> ?e" using k by simp
    show "?e \<le> 127" by simp
    show "2 powi ?e \<le> \<bar>y\<bar> \<or> ?e = - 126"
      using lo by (simp add: p field_simps)
    show "\<bar>y\<bar> < 2 powi (?e + 1)"
      using hi by (simp add: p1 field_simps)
  qed
  have y0: "y \<noteq> 0" using lo by auto
  have u: "(2::real) powi (expo32 y - 23) = 1 / 2 ^ k"
    by (simp add: e power_int_minus field_simps)
  let ?m = "rne (y * 2 ^ k)"
  have b: "2 ^ 23 \<le> \<bar>?m\<bar> \<and> \<bar>?m\<bar> \<le> 2 ^ 24"
  proof (cases "0 \<le> y")
    case True
    have "(2 ^ 23 :: int) \<le> ?m \<and> ?m \<le> 2 ^ 24"
      using lo hi True by (intro rne_bounds) simp_all
    then show ?thesis by simp
  next
    case False
    then have "y < 0" by simp
    have "(- (2 ^ 24) :: int) \<le> ?m \<and> ?m \<le> - (2 ^ 23)"
      using lo hi \<open>y < 0\<close> by (intro rne_bounds) (simp_all add: mult_less_0_iff)
    then show ?thesis by simp
  qed
  let ?r = "real_of_int ?m / 2 ^ k"
  have r0: "?r \<noteq> 0" using b by auto
  have "\<bar>?r\<bar> \<le> 2 ^ 24"
  proof -
    have "\<bar>?r\<bar> = real_of_int \<bar>?m\<bar> / 2 ^ k" by (simp add: abs_divide)
    also have "\<dots> \<le> real_of_int \<bar>?m\<bar>"
    proof -
      have "(1::real) \<le> 2 ^ k" by simp
      then have "real_of_int \<bar>?m\<bar> * 1 \<le> real_of_int \<bar>?m\<bar> * 2 ^ k"
        by (intro mult_left_mono) simp_all
      then show ?thesis by (simp add: field_simps)
    qed
    also have "\<dots> \<le> 2 ^ 24" using b by (metis of_int_le_iff of_int_numeral of_int_power)
    finally show ?thesis .
  qed
  then have rb: "\<not> 2 ^ 128 \<le> \<bar>?r\<bar>" by simp
  show ?thesis
    using y0 r0 rb by (simp add: round32_def u Let_def)
qed

lemma fadd_zero_zero: "fzero z \<Longrightarrow> fadd (Fin 0) z = Fin 0"
  by (auto simp: fzero_def fadd_def is_finite_def fval_def fsign_def zero_of_def)

lemma fmul_zero_zero: "fmul (Fin 0) (Fin 0) = Fin 0"
  by (simp add: fmul_def is_finite_def fval_def fsign_def zero_of_def)

lemma fdiv_zero_two: "fdiv (Fin 0) (Fin 2) = Fin 0"
  by (simp add: fdiv_def is_finite_def fval_def fsign_def zero_of_def)

lemma fge_zero_zero: "fge (Fin 0) (Fin 0)"
  by (simp add: fge_def is_finite_def fval_def)

lemma not_fgt_zero_zero: "\<not> fgt (Fin 0) (Fin 0)"
  by (simp add: fgt_def is_finite_def fval_def)

lemma fsqrt_zero: "fsqrt (Fin 0) = Fin 0"
  by (simp add: fsqrt_def zero_of_def)

text \<open>The arithmetic of the sessions below: medians of 100 and 80 Hz.\<close>

lemmas f32_unfold = fadd_def fsub_def fneg_def fmul_def fdiv_def fgt_def fge_def f32_of_int_def
  is_finite_def fval_def fsign_def zero_of_def

lemma f32_of_int_5: "f32_of_int 5 = Fin 5"
  by (simp add: f32_unfold, subst round32_up [where k = 21]) (simp_all add: rne_def)

lemma f32_of_int_512: "f32_of_int 512 = Fin 512"
  by (simp add: f32_unfold, subst round32_up [where k = 14]) (simp_all add: rne_def)

lemma fadd_0_100: "fadd (Fin 0) (Fin 100) = Fin 100"
  by (simp add: f32_unfold, subst round32_up [where k = 17]) (simp_all add: rne_def)

lemma fadd_100_100: "fadd (Fin 100) (Fin 100) = Fin 200"
  by (simp add: f32_unfold, subst round32_up [where k = 16]) (simp_all add: rne_def)

lemma fadd_200_100: "fadd (Fin 200) (Fin 100) = Fin 300"
  by (simp add: f32_unfold, subst round32_up [where k = 15]) (simp_all add: rne_def)

lemma fadd_300_100: "fadd (Fin 300) (Fin 100) = Fin 400"
  by (simp add: f32_unfold, subst round32_up [where k = 15]) (simp_all add: rne_def)

lemma fadd_400_100: "fadd (Fin 400) (Fin 100) = Fin 500"
  by (simp add: f32_unfold, subst round32_up [where k = 15]) (simp_all add: rne_def)

lemma fdiv_500_5: "fdiv (Fin 500) (Fin 5) = Fin 100"
  by (simp add: f32_unfold, subst round32_up [where k = 17]) (simp_all add: rne_def)

lemma fgt_100_0: "fgt (Fin 100) (Fin 0)"
  by (simp add: f32_unfold)

lemma fsub_100_80: "fsub (Fin 100) (Fin 80) = Fin 20"
  by (simp add: f32_unfold, subst round32_up [where k = 19]) (simp_all add: rne_def)

lemma fdiv_20_100: "fdiv (Fin 20) (Fin 100) = Fin (13421773 / 67108864)"
  by (simp add: f32_unfold, subst round32_up [where k = 26]) (simp_all add: rne_def)

lemma fgt_drop_20: "fgt (Fin (13421773 / 67108864)) FATIGUE_THRESHOLD"
  by (simp add: f32_unfold FATIGUE_THRESHOLD_def)

lemma fsub_100_100: "fsub (Fin 100) (Fin 100) = Fin 0"
  by (simp add: f32_unfold)

lemma fdiv_0_100: "fdiv (Fin 0) (Fin 100) = Fin 0"
  by (simp add: f32_unfold)

lemma not_fgt_drop_0: "\<not> fgt (Fin 0) FATIGUE_THRESHOLD"
  by (simp add: f32_unfold FATIGUE_THRESHOLD_def)

lemmas session_arith =
  f32_of_int_5 fadd_0_100 fadd_100_100 fadd_200_100 fadd_300_100 fadd_400_100 fdiv_500_5
  fgt_100_0 fsub_100_80 fdiv_20_100 fgt_drop_20 fsub_100_100 fdiv_0_100 not_fgt_drop_0

subsection \<open>Spectral metrics\<close>

lemma drop_take_step:
  "i < n \<Longrightarrow> n \<le> length xs \<Longrightarrow> drop i (take n xs) = xs ! i # drop (Suc i) (take n xs)"
  by (metis Cons_nth_drop_Suc length_take min.absorb2 nth_take)

lemma CalcMeanFreq_loop_folds:
  "0 \<le> i \<Longrightarrow> len \<le> int (length fft_mag) \<Longrightarrow> len \<le> int (length freqs) \<Longrightarrow>
   CalcMeanFreq_loop fft_mag freqs len i num den =
     Some (foldl (\<lambda>acc (fi, mi). fadd acc (fmul fi mi)) num
             (zip (drop (nat i) (take (nat len) freqs)) (drop (nat i) (take (nat len) fft_mag))),
           foldl fadd den (drop (nat i) (take (nat len) fft_mag)))"
proof (induction fft_mag freqs len i num den rule: CalcMeanFreq_loop.induct)
  case (1 fft_mag freqs len i num den)
  show ?case
  proof (cases "i < len")
    case True
    have fi: "at_index freqs i = Some (freqs ! nat i)"
      using True "1.prems" by (simp add: at_index_def)
    have mi: "at_index fft_mag i = Some (fft_mag ! nat i)"
      using True "1.prems" by (simp add: at_index_def)
    have s: "nat (i + 1) = Suc (nat i)"
      using "1.prems" by simp
    have df: "drop (nat i) (take (nat len) freqs) =
        freqs ! nat i # drop (Suc (nat i)) (take (nat len) freqs)"
      using True "1.prems" by (intro drop_take_step) simp_all
    have dm: "drop (nat i) (take (nat len) fft_mag) =
        fft_mag ! nat i # drop (Suc (nat i)) (take (nat len) fft_mag)"
      using True "1.prems" by (intro drop_take_step) simp_all
    have step:
      "CalcMeanFreq_loop fft_mag freqs len (i + 1)
         (fadd num (fmul (freqs ! nat i) (fft_mag ! nat i))) (fadd den (fft_mag ! nat i)) =
       Some (foldl (\<lambda>acc (fi, mi). fadd acc (fmul fi mi))
               (fadd num (fmul (freqs ! nat i) (fft_mag ! nat i)))
               (zip (drop (Suc (nat i)) (take (nat len) freqs))
                    (drop (Suc (nat i)) (take (nat len) fft_mag))),
             foldl fadd (fadd den (fft_mag ! nat i)) (drop (Suc (nat i)) (take (nat len) fft_mag)))"
      using "1.IH" [OF True fi mi] "1.prems" by (simp add: s)
    show ?thesis
      using True fi mi step
      by (subst CalcMeanFreq_loop.simps) (simp add: df dm)
  next
    case False
    then have "nat len \<le> nat i" by simp
    with False show ?thesis
      by (subst CalcMeanFreq_loop.simps) simp
  qed
qed

lemma CalcMeanFreq_folds:
  assumes "len \<le> int (length fft_mag)" and "len \<le> int (length freqs)"
  shows "CalcMeanFreq fft_mag freqs len =
     Some (if fgt (sum32 (take (nat len) fft_mag)) (Fin 0)
           then fdiv (weighted_sum32 (take (nat len) freqs) (take (nat len) fft_mag))
                     (sum32 (take (nat len) fft_mag))
           else Fin 0)"
  using CalcMeanFreq_loop_folds [of 0 len fft_mag freqs "Fin 0" "Fin 0"] assms
  by (simp add: CalcMeanFreq_def sum32_def weighted_sum32_def)

text \<open>
  Claim C10. For all arrays with at least \<open>len\<close> elements \<^verbatim>\<open>CalcMeanFreq\<close> returns a
  value (every access is inside its array). With \<open>den\<close> the binary32 sum of the
  magnitudes and \<open>num\<close> the binary32 sum of the products \<open>freqs[i] * fft_mag[i]\<close>, both
  accumulated from index 0 upwards, the result is the binary32 quotient \<open>num / den\<close> when
  \<open>den > 0\<close>, and \<open>0.0\<close> otherwise (\<open>den\<close> zero, negative or NaN): the division is
  evaluated with a positive denominator only.
\<close>

theorem CalcMeanFreq_guarded_quotient:
  assumes "len \<le> int (length fft_mag)" and "len \<le> int (length freqs)"
  shows "CalcMeanFreq fft_mag freqs len =
     Some (if fgt (sum32 (take (nat len) fft_mag)) (Fin 0)
           then fdiv (weighted_sum32 (take (nat len) freqs) (take (nat len) fft_mag))
                     (sum32 (take (nat len) fft_mag))
           else Fin 0)"
  using assms by (rule CalcMeanFreq_folds)

lemma fadd_1_3: "fadd (Fin 1) (Fin 3) = Fin 4"
  by (simp add: f32_unfold, subst round32_up [where k = 21]) (simp_all add: rne_def)

lemma fadd_0_1: "fadd (Fin 0) (Fin 1) = Fin 1"
  by (simp add: f32_unfold, subst round32_up [where k = 23]) (simp_all add: rne_def)

lemma fmul_10_1: "fmul (Fin 10) (Fin 1) = Fin 10"
  by (simp add: f32_unfold, subst round32_up [where k = 20]) (simp_all add: rne_def)

lemma fmul_20_3: "fmul (Fin 20) (Fin 3) = Fin 60"
  by (simp add: f32_unfold, subst round32_up [where k = 18]) (simp_all add: rne_def)

lemma fadd_0_10: "fadd (Fin 0) (Fin 10) = Fin 10"
  by (simp add: f32_unfold, subst round32_up [where k = 20]) (simp_all add: rne_def)

lemma fadd_10_60: "fadd (Fin 10) (Fin 60) = Fin 70"
  by (simp add: f32_unfold, subst round32_up [where k = 17]) (simp_all add: rne_def)

lemma fdiv_70_4: "fdiv (Fin 70) (Fin 4) = Fin (35 / 2)"
  by (simp add: f32_unfold, subst round32_up [where k = 19]) (simp_all add: rne_def)

text \<open>
  On the magnitudes 1, 3 at 10 and 20 Hz the result is 70 / 4 = 17.5. On an all-zero
  spectrum the result is 0, where the quotient without the test would be 0 / 0, a NaN.
\<close>

theorem CalcMeanFreq_guarded_quotient_witness:
  "CalcMeanFreq [Fin 1, Fin 3] [Fin 10, Fin 20] 2 = Some (Fin (35 / 2)) \<and>
   CalcMeanFreq [Fin 0, Fin 0] [Fin 10, Fin 20] 2 = Some (Fin 0) \<and>
   fdiv (weighted_sum32 [Fin 10, Fin 20] [Fin 0, Fin 0]) (sum32 [Fin 0, Fin 0]) = NaN"
proof -
  have a: "sum32 [Fin 1, Fin 3] = Fin 4"
    by (simp add: sum32_def fadd_0_1 fadd_1_3)
  have b: "weighted_sum32 [Fin 10, Fin 20] [Fin 1, Fin 3] = Fin 70"
    by (simp add: weighted_sum32_def fmul_10_1 fmul_20_3 fadd_0_10 fadd_10_60)
  have d: "fgt (Fin 4) (Fin 0)"
    by (simp add: f32_unfold)
  have e: "sum32 [Fin 0, Fin 0] = Fin 0"
    by (simp add: sum32_def f32_unfold)
  have f: "weighted_sum32 [Fin 10, Fin 20] [Fin 0, Fin 0] = Fin 0"
    by (simp add: weighted_sum32_def f32_unfold)
  have g: "fdiv (Fin 0) (Fin 0) = NaN"
    by (simp add: f32_unfold)
  show ?thesis
    using CalcMeanFreq_guarded_quotient [of 2 "[Fin 1, Fin 3]" "[Fin 10, Fin 20]"]
      CalcMeanFreq_guarded_quotient [of 2 "[Fin 0, Fin 0]" "[Fin 10, Fin 20]"]
    by (simp add: a b d e f g fdiv_70_4 not_fgt_zero_zero)
qed

lemma CalcMedianFreq_total_zero:
  "0 \<le> i \<Longrightarrow> len \<le> int (length fft_mag) \<Longrightarrow> \<forall>j<nat len. fzero (fft_mag ! j) \<Longrightarrow>
   CalcMedianFreq_total fft_mag len i (Fin 0) = Some (Fin 0)"
proof (induction fft_mag len i "Fin 0" rule: CalcMedianFreq_total.induct)
  case (1 fft_mag len i)
  show ?case
  proof (cases "i < len")
    case True
    have mi: "at_index fft_mag i = Some (fft_mag ! nat i)"
      using True "1.prems" by (simp add: at_index_def)
    have z: "fadd (Fin 0) (fft_mag ! nat i) = Fin 0"
      using True "1.prems" by (intro fadd_zero_zero) simp
    have "CalcMedianFreq_total fft_mag len (i + 1) (Fin 0) = Some (Fin 0)"
      using "1.hyps" [OF True mi] z "1.prems" by simp
    then show ?thesis
      using True mi z by (subst CalcMedianFreq_total.simps) simp
  next
    case False
    then show ?thesis by (subst CalcMedianFreq_total.simps) simp
  qed
qed

lemma CalcMedianFreq_scan_zero:
  assumes "0 < len" and "len \<le> int (length fft_mag)" and "fzero (fft_mag ! 0)"
  shows "CalcMedianFreq_scan fft_mag freqs len (Fin 0) 0 (Fin 0) = at_index freqs 0"
proof -
  have "at_index fft_mag 0 = Some (fft_mag ! 0)"
    using assms by (auto simp: at_index_def)
  moreover have "fadd (Fin 0) (fft_mag ! 0) = Fin 0"
    using assms(3) by (rule fadd_zero_zero)
  ultimately show ?thesis
    using assms(1) by (subst CalcMedianFreq_scan.simps) (simp add: fge_zero_zero)
qed

lemma CalcMedianFreq_zero_first:
  assumes "0 < len" and "len \<le> int (length fft_mag)" and "len \<le> int (length freqs)"
    and "\<forall>j<nat len. fzero (fft_mag ! j)"
  shows "CalcMedianFreq fft_mag freqs len = Some (freqs ! 0)"
proof -
  have "fzero (fft_mag ! 0)"
    using assms(1,4) by simp
  then have "CalcMedianFreq_scan fft_mag freqs len (Fin 0) 0 (Fin 0) = at_index freqs 0"
    using assms(1,2) by (intro CalcMedianFreq_scan_zero)
  moreover have "at_index freqs 0 = Some (freqs ! 0)"
    using assms(1,3) by (auto simp: at_index_def)
  moreover have "CalcMedianFreq_total fft_mag len 0 (Fin 0) = Some (Fin 0)"
    using assms(2,4) by (intro CalcMedianFreq_total_zero) simp_all
  ultimately show ?thesis
    by (simp add: CalcMedianFreq_def fdiv_zero_two)
qed

text \<open>
  Claim C3, as the code has it. On magnitudes that are all zero (of either sign)
  \<^verbatim>\<open>CalcMedianFreq\<close> returns the first element of the frequency vector: \<open>total\<close> and
  \<open>half\<close> are 0, and the test \<open>accum >= half\<close> holds at index 0.
\<close>

theorem CalcMedianFreq_all_zero_first:
  assumes "0 < len" and "len \<le> int (length fft_mag)" and "len \<le> int (length freqs)"
    and "\<forall>j<nat len. fzero (fft_mag ! j)"
  shows "CalcMedianFreq fft_mag freqs len = Some (freqs ! 0)"
  using assms by (rule CalcMedianFreq_zero_first)

theorem CalcMedianFreq_all_zero_first_witness:
  "CalcMedianFreq [Fin 0, NegZero, Fin 0] [Fin 10, Fin 20, Fin 30] 3 = Some (Fin 10)"
  using CalcMedianFreq_all_zero_first [of 3 "[Fin 0, NegZero, Fin 0]" "[Fin 10, Fin 20, Fin 30]"]
  by (simp add: less_Suc_eq numeral_3_eq_3 fzero_def)

text \<open>
  The claim as the specification states it (the last element is returned) fails on two
  zero magnitudes at 1 and 2 Hz: the result is 1 Hz.
\<close>

theorem CalcMedianFreq_all_zero_not_last:
  "CalcMedianFreq [Fin 0, Fin 0] [Fin 1, Fin 2] 2 = Some (Fin 1) \<and>
   Some (Fin 1) \<noteq> Some (last [Fin 1, Fin 2])"
proof -
  have t: "CalcMedianFreq_total [Fin 0, Fin 0] 2 0 (Fin 0) = Some (Fin 0)"
    by (intro CalcMedianFreq_total_zero) (simp_all add: fzero_def less_Suc_eq numeral_2_eq_2)
  have s: "CalcMedianFreq_scan [Fin 0, Fin 0] [Fin 1, Fin 2] 2 (Fin 0) 0 (Fin 0) =
      at_index [Fin 1, Fin 2] 0"
    by (intro CalcMedianFreq_scan_zero) (simp_all add: fzero_def)
  show ?thesis
    by (simp add: CalcMedianFreq_def t s fdiv_zero_two at_index_def)
qed

subsection \<open>Scaling by a power of two\<close>

lemma expo_from_spec:
  "s \<le> 127 \<Longrightarrow> 2 powi s \<le> x \<Longrightarrow>
   s \<le> expo_from s x \<and> expo_from s x \<le> 127 \<and> 2 powi (expo_from s x) \<le> x \<and>
   (expo_from s x < 127 \<longrightarrow> x < 2 powi (expo_from s x + 1))"
proof (induction s x rule: expo_from.induct)
  case (1 e x)
  show ?case
  proof (cases "e < 127 \<and> 2 powi (e + 1) \<le> x")
    case True
    then have eq: "expo_from e x = expo_from (e + 1) x"
      by (subst expo_from.simps) simp
    have "e + 1 \<le> expo_from (e + 1) x \<and> expo_from (e + 1) x \<le> 127 \<and>
          2 powi (expo_from (e + 1) x) \<le> x \<and>
          (expo_from (e + 1) x < 127 \<longrightarrow> x < 2 powi (expo_from (e + 1) x + 1))"
      using "1.IH" [OF True] True by simp
    then show ?thesis unfolding eq by simp
  next
    case False
    then have eq: "expo_from e x = e"
      by (subst expo_from.simps) auto
    show ?thesis unfolding eq using False "1.prems" by auto
  qed
qed

lemma expo32_normal:
  assumes "2 powi (- 126) \<le> \<bar>y\<bar>" and "\<bar>y\<bar> < 2 ^ 127"
  shows "- 126 \<le> expo32 y \<and> expo32 y \<le> 126 \<and> 2 powi (expo32 y) \<le> \<bar>y\<bar> \<and>
         \<bar>y\<bar> < 2 powi (expo32 y + 1)"
proof -
  let ?e = "expo32 y"
  have s: "- 126 \<le> ?e \<and> ?e \<le> 127 \<and> 2 powi ?e \<le> \<bar>y\<bar> \<and> (?e < 127 \<longrightarrow> \<bar>y\<bar> < 2 powi (?e + 1))"
    unfolding expo32_def using expo_from_spec [of "- 126" "\<bar>y\<bar>"] assms(1) by simp
  have "?e \<noteq> 127"
  proof
    assume "?e = 127"
    then have "(2::real) powi 127 \<le> \<bar>y\<bar>" using s by simp
    then show False using assms(2) by simp
  qed
  then show ?thesis using s by auto
qed

lemma powi_le_less_imp: "(2::real) powi a \<le> x \<Longrightarrow> x < 2 powi b \<Longrightarrow> a < b"
proof (rule ccontr)
  assume h: "2 powi a \<le> x" "x < 2 powi b" and n: "\<not> a < b"
  then have "(2::real) powi b \<le> 2 powi a"
    by (intro power_int_increasing) simp_all
  with h show False by simp
qed

lemma powi_split: "(2::real) powi (a + b) = 2 powi a * 2 powi b"
  by (simp add: power_int_add)

lemma round32_normal:
  assumes lo: "2 powi (- 126) \<le> \<bar>y\<bar>" and hi: "\<bar>y\<bar> < 2 ^ 127"
  shows "round32 s y =
           Fin (real_of_int (rne (y / 2 powi (expo32 y - 23))) * 2 powi (expo32 y - 23))"
proof -
  let ?e = "expo32 y"
  let ?u = "(2::real) powi (?e - 23)"
  have e: "- 126 \<le> ?e" "?e \<le> 126" "2 powi ?e \<le> \<bar>y\<bar>" "\<bar>y\<bar> < 2 powi (?e + 1)"
    using expo32_normal [OF lo hi] by simp_all
  have u0: "0 < ?u" by simp
  have p23: "(2::real) powi ?e = 2 ^ 23 * ?u"
    using powi_split [of 23 "?e - 23"] by simp
  have p24: "(2::real) powi (?e + 1) = 2 ^ 24 * ?u"
    using powi_split [of 24 "?e - 23"] by (simp add: add.commute)
  have q: "2 ^ 23 \<le> \<bar>y\<bar> / ?u" "\<bar>y\<bar> / ?u < 2 ^ 24"
    using e(3,4) u0 unfolding p23 p24 by (simp_all add: field_simps)
  have y0: "y \<noteq> 0"
  proof
    assume "y = 0"
    then have "(2::real) powi (- 126) \<le> 0" using lo by simp
    moreover have "0 < (2::real) powi (- 126)" by (rule zero_less_power_int) simp
    ultimately show False by linarith
  qed
  let ?m = "rne (y / ?u)"
  have b: "2 ^ 23 \<le> \<bar>?m\<bar> \<and> \<bar>?m\<bar> \<le> 2 ^ 24"
  proof (cases "0 \<le> y")
    case True
    then have "\<bar>y\<bar> / ?u = y / ?u" by simp
    then have "(2 ^ 23 :: int) \<le> ?m \<and> ?m \<le> 2 ^ 24"
      using q by (intro rne_bounds) simp_all
    then show ?thesis by simp
  next
    case False
    then have "\<bar>y\<bar> / ?u = - (y / ?u)" by simp
    then have "(- (2 ^ 24) :: int) \<le> ?m \<and> ?m \<le> - (2 ^ 23)"
      using q by (intro rne_bounds) simp_all
    then show ?thesis by simp
  qed
  let ?r = "real_of_int ?m * ?u"
  have r0: "?r \<noteq> 0" using b u0 by auto
  have "\<bar>?r\<bar> = real_of_int \<bar>?m\<bar> * ?u"
    using u0 by (simp add: abs_mult)
  also have "\<dots> \<le> 2 ^ 24 * ?u"
  proof -
    have "real_of_int \<bar>?m\<bar> \<le> 2 ^ 24"
      using b by (metis of_int_le_iff of_int_numeral of_int_power)
    then show ?thesis using u0 by (intro mult_right_mono) simp_all
  qed
  also have "\<dots> = 2 powi (?e + 1)" by (simp only: p24)
  also have "\<dots> \<le> 2 powi 127"
    using e(2) by (intro power_int_increasing) simp_all
  finally have "\<bar>?r\<bar> \<le> 2 ^ 127" by simp
  then have rb: "\<not> 2 ^ 128 \<le> \<bar>?r\<bar>" by simp
  show ?thesis
    using y0 r0 rb by (simp add: round32_def Let_def)
qed

lemma expo32_scale:
  assumes "2 powi (- 126) \<le> \<bar>y\<bar>" and "\<bar>y\<bar> < 2 ^ 127"
    and "2 powi (- 126) \<le> \<bar>y * 2 powi j\<bar>" and "\<bar>y * 2 powi j\<bar> < 2 ^ 127"
  shows "expo32 (y * 2 powi j) = expo32 y + j"
proof -
  let ?e = "expo32 y"
  let ?t = "(2::real) powi j"
  have t0: "0 < ?t" by simp
  have e: "2 powi ?e \<le> \<bar>y\<bar>" "\<bar>y\<bar> < 2 powi (?e + 1)"
    using expo32_normal [OF assms(1,2)] by simp_all
  have a: "\<bar>y * ?t\<bar> = \<bar>y\<bar> * ?t" using t0 by (simp add: abs_mult)
  have lo: "2 powi (?e + j) \<le> \<bar>y * ?t\<bar>"
    unfolding a powi_split using e(1) t0 by (intro mult_right_mono) simp_all
  have hi: "\<bar>y * ?t\<bar> < 2 powi (?e + j + 1)"
  proof -
    have "\<bar>y\<bar> * ?t < 2 powi (?e + 1) * ?t"
      using e(2) t0 by (intro mult_strict_right_mono)
    also have "\<dots> = 2 powi (?e + j + 1)"
      using powi_split [of "?e + 1" j] by (simp add: add.commute add.left_commute)
    finally show ?thesis unfolding a .
  qed
  have "2 powi (?e + j) \<le> \<bar>y * ?t\<bar>" "\<bar>y * ?t\<bar> < 2 powi 127"
    using lo assms(4) by simp_all
  then have up: "?e + j < 127" by (rule powi_le_less_imp)
  have "- 126 < ?e + j + 1"
    using assms(3) hi by (rule powi_le_less_imp)
  then have dn: "- 126 \<le> ?e + j" by simp
  show ?thesis
    unfolding expo32_def [of "y * ?t"]
    using dn up lo hi by (intro expo_from_eq) simp_all
qed

lemma scale2_zero_of [simp]: "scale2 j (zero_of s) = zero_of s"
  by (simp add: scale2_def zero_of_def)

lemma round32_scale2:
  assumes "op_safe j y"
  shows "round32 s (y * 2 powi j) = scale2 j (round32 s y)"
proof (cases "y = 0")
  case True
  then show ?thesis by simp
next
  case False
  let ?t = "(2::real) powi j"
  have t0: "?t \<noteq> 0" by simp
  have y: "2 powi (- 126) \<le> \<bar>y\<bar>" "\<bar>y\<bar> < 2 ^ 127"
    and yt: "2 powi (- 126) \<le> \<bar>y * ?t\<bar>" "\<bar>y * ?t\<bar> < 2 ^ 127"
    using assms False by (simp_all add: op_safe_def in_normal_range_def)
  have ex: "expo32 (y * ?t) = expo32 y + j"
    using y yt by (rule expo32_scale)
  have u: "(2::real) powi (expo32 y + j - 23) = 2 powi (expo32 y - 23) * ?t"
    using powi_split [of "expo32 y - 23" j] by (simp add: algebra_simps)
  have q: "y * ?t / (2 powi (expo32 y - 23) * ?t) = y / 2 powi (expo32 y - 23)"
    using t0 by simp
  show ?thesis
    unfolding round32_normal [OF yt] round32_normal [OF y] ex u q
    by (simp add: scale2_def mult.assoc)
qed

lemma powi2_not_neg [simp]: "\<not> (2::real) powi j < 0"
  by (simp add: not_less)

lemma scale2_simps [simp]:
  "scale2 j (Fin x) = Fin (x * 2 powi j)" "scale2 j NegZero = NegZero" "scale2 j PInf = PInf"
  "scale2 j NInf = NInf" "scale2 j NaN = NaN"
  by (simp_all add: scale2_def)

lemma scale2_fields [simp]:
  "is_finite (scale2 j v) = is_finite v" "fval (scale2 j v) = fval v * 2 powi j"
  "fsign (scale2 j v) = fsign v" "fzero (scale2 j v) = fzero v"
  "scale2 j v = NaN \<longleftrightarrow> v = NaN" "scale2 j v = PInf \<longleftrightarrow> v = PInf"
  "scale2 j v = NInf \<longleftrightarrow> v = NInf"
  by (cases v; simp add: is_finite_def fval_def fsign_def fzero_def mult_less_0_iff)+

lemma scale2_inf_of [simp]: "scale2 j (inf_of s) = inf_of s"
  by (simp add: inf_of_def)

lemma scale2_eq_iff: "scale2 j a = scale2 j b \<longleftrightarrow> a = b"
  by (cases a; cases b; simp)

lemma fadd_scale2:
  assumes "op_safe j (fval a + fval b)"
  shows "fadd (scale2 j a) (scale2 j b) = scale2 j (fadd a b)"
proof -
  have "round32 (fsign a \<and> fsign b) ((fval a + fval b) * 2 powi j) =
        scale2 j (round32 (fsign a \<and> fsign b) (fval a + fval b))"
    using assms by (rule round32_scale2)
  then show ?thesis
    by (simp add: fadd_def scale2_eq_iff distrib_right)
qed

lemma fmul_scale2:
  assumes "op_safe j (fval fi * fval mi)"
  shows "fmul fi (scale2 j mi) = scale2 j (fmul fi mi)"
proof -
  have "round32 (fsign fi \<noteq> fsign mi) (fval fi * fval mi * 2 powi j) =
        scale2 j (round32 (fsign fi \<noteq> fsign mi) (fval fi * fval mi))"
    using assms by (rule round32_scale2)
  then show ?thesis
    by (simp add: fmul_def mult.assoc)
qed

lemma fdiv_scale2: "fdiv (scale2 j a) (scale2 j b) = fdiv a b"
  by (simp add: fdiv_def)

lemma fdiv_scale2_two:
  assumes "op_safe j (fval t / 2)"
  shows "fdiv (scale2 j t) (Fin 2) = scale2 j (fdiv t (Fin 2))"
proof (cases t)
  case (Fin x)
  have "round32 (x < 0) (x / 2 * 2 powi j) = scale2 j (round32 (x < 0) (x / 2))"
    using assms Fin by (intro round32_scale2) (simp add: fval_def)
  then show ?thesis
    using Fin by (simp add: fdiv_def is_finite_def fval_def fsign_def mult_less_0_iff)
qed (simp_all add: fdiv_def is_finite_def fval_def fsign_def zero_of_def inf_of_def)

lemma fgt_scale2: "fgt (scale2 j d) (Fin 0) = fgt d (Fin 0)"
  by (cases d; simp add: fgt_def is_finite_def fval_def zero_less_mult_iff)

lemma fge_scale2: "fge (scale2 j a) (scale2 j b) = fge a b"
  by (simp add: fge_def)

lemma fmul_pow2:
  assumes "representable m" and "op_safe j (fval m)"
  shows "fmul (Fin (2 powi j)) m = scale2 j m"
proof (cases m)
  case (Fin x)
  have "round32 (x < 0) (x * 2 powi j) = scale2 j (round32 (x < 0) x)"
    using assms(2) Fin by (intro round32_scale2) (simp add: fval_def)
  moreover have "round32 (x < 0) x = Fin x"
  proof (cases "x = 0")
    case True
    then show ?thesis by (simp add: zero_of_def)
  next
    case False
    then show ?thesis
      using assms(1) Fin by (simp add: representable_def round32_def)
  qed
  ultimately show ?thesis
    using Fin by (simp add: fmul_def is_finite_def fval_def fsign_def mult.commute)
qed (simp_all add: fmul_def is_finite_def fval_def fsign_def fzero_def zero_of_def inf_of_def)

text \<open>A subnormal result is the nearest multiple of \<open>1 / 2 ^ 149\<close>.\<close>

lemma round32_subnormal:
  assumes "y \<noteq> 0" and "\<bar>y\<bar> < 2 powi (- 126)"
  shows "round32 s y =
           (if rne (y * 2 ^ 149) = 0 then zero_of (y < 0)
            else Fin (real_of_int (rne (y * 2 ^ 149)) / 2 ^ 149))"
proof -
  have "\<bar>y\<bar> < 2 powi (- 126 + 1)"
  proof -
    have "(2::real) powi (- 126) \<le> 2 powi (- 126 + 1)"
      by (intro power_int_increasing) simp_all
    with assms(2) show ?thesis by linarith
  qed
  then have e: "expo32 y = - 126"
    unfolding expo32_def by (intro expo_from_eq) simp_all
  have u: "(2::real) powi (expo32 y - 23) = 1 / 2 ^ 149"
    by (simp add: e power_int_minus field_simps)
  let ?m = "rne (y * 2 ^ 149)"
  have "\<bar>y\<bar> * 2 ^ 149 < 2 ^ 23"
    using assms(2) by (simp add: power_int_minus field_simps)
  then have "- (2 ^ 23) \<le> y * 2 ^ 149" "y * 2 ^ 149 \<le> 2 ^ 23"
    by (simp_all add: abs_mult abs_less_iff)
  then have "(- (2 ^ 23) :: int) \<le> ?m \<and> ?m \<le> 2 ^ 23"
    by (intro rne_bounds) simp_all
  then have b: "\<bar>real_of_int ?m\<bar> \<le> 2 ^ 23"
    by (metis abs_le_iff of_int_le_iff of_int_minus of_int_numeral of_int_power minus_le_iff)
  have "\<bar>real_of_int ?m / 2 ^ 149\<bar> \<le> \<bar>real_of_int ?m\<bar>"
    by (simp add: abs_divide field_simps mult_le_cancel_left1)
  with b have rb: "\<not> 2 ^ 128 \<le> \<bar>real_of_int ?m / 2 ^ 149\<bar>" by simp
  show ?thesis
    using assms(1) rb by (simp add: round32_def u Let_def)
qed

lemma sum_fold_scale2:
  "adds_safe j acc xs \<Longrightarrow>
   foldl fadd (scale2 j acc) (map (scale2 j) xs) = scale2 j (foldl fadd acc xs)"
proof (induction xs arbitrary: acc)
  case Nil
  then show ?case by simp
next
  case (Cons x xs)
  have "fadd (scale2 j acc) (scale2 j x) = scale2 j (fadd acc x)"
    using Cons.prems by (intro fadd_scale2) simp
  moreover have "foldl fadd (scale2 j (fadd acc x)) (map (scale2 j) xs) =
      scale2 j (foldl fadd (fadd acc x) xs)"
    using Cons.prems by (intro Cons.IH) simp
  ultimately show ?case by simp
qed

lemma sum32_scale2: "adds_safe j (Fin 0) xs \<Longrightarrow> sum32 (map (scale2 j) xs) = scale2 j (sum32 xs)"
  using sum_fold_scale2 [of j "Fin 0" xs] by (simp add: sum32_def)

lemma weighted_fold_scale2:
  "weighted_safe j acc (zip fs ms) \<Longrightarrow>
   foldl (\<lambda>acc (fi, mi). fadd acc (fmul fi mi)) (scale2 j acc) (zip fs (map (scale2 j) ms)) =
   scale2 j (foldl (\<lambda>acc (fi, mi). fadd acc (fmul fi mi)) acc (zip fs ms))"
proof (induction fs arbitrary: ms acc)
  case Nil
  then show ?case by simp
next
  case (Cons x fs)
  show ?case
  proof (cases ms)
    case Nil
    then show ?thesis by simp
  next
    case (Cons m ms')
    have s: "op_safe j (fval x * fval m)" "op_safe j (fval acc + fval (fmul x m))"
      "weighted_safe j (fadd acc (fmul x m)) (zip fs ms')"
      using Cons.prems Cons by simp_all
    have "fadd (scale2 j acc) (fmul x (scale2 j m)) = scale2 j (fadd acc (fmul x m))"
      using s(1,2) by (simp add: fmul_scale2 fadd_scale2)
    then show ?thesis
      using Cons.IH [OF s(3)] Cons by simp
  qed
qed

lemma weighted_sum32_scale2:
  "weighted_safe j (Fin 0) (zip fs ms) \<Longrightarrow>
   weighted_sum32 fs (map (scale2 j) ms) = scale2 j (weighted_sum32 fs ms)"
  using weighted_fold_scale2 [of j "Fin 0" fs ms] by (simp add: weighted_sum32_def)

lemma scale_mag_take:
  assumes "mags_safe j (take n fft_mag)"
  shows "take n (scale_mag (Fin (2 powi j)) fft_mag) = map (scale2 j) (take n fft_mag)"
proof -
  have "map (fmul (Fin (2 powi j))) (take n fft_mag) = map (scale2 j) (take n fft_mag)"
    using assms by (intro map_cong refl fmul_pow2) (simp_all add: mags_safe_def list_all_iff)
  then show ?thesis by (simp add: scale_mag_def take_map)
qed

lemma CalcMeanFreq_scale2:
  assumes "len \<le> int (length fft_mag)" and "len \<le> int (length freqs)"
    and "spectrum_safe j fft_mag freqs len"
  shows "CalcMeanFreq (scale_mag (Fin (2 powi j)) fft_mag) freqs len = CalcMeanFreq fft_mag freqs len"
proof -
  let ?m = "take (nat len) fft_mag"
  have t: "take (nat len) (scale_mag (Fin (2 powi j)) fft_mag) = map (scale2 j) ?m"
    using assms(3) by (intro scale_mag_take) (simp add: spectrum_safe_def)
  have d: "sum32 (map (scale2 j) ?m) = scale2 j (sum32 ?m)"
    using assms(3) by (intro sum32_scale2) (simp add: spectrum_safe_def)
  have n: "weighted_sum32 (take (nat len) freqs) (map (scale2 j) ?m) =
      scale2 j (weighted_sum32 (take (nat len) freqs) ?m)"
    using assms(3) by (intro weighted_sum32_scale2) (simp add: spectrum_safe_def)
  have l: "len \<le> int (length (scale_mag (Fin (2 powi j)) fft_mag))"
    using assms(1) by (simp add: scale_mag_def)
  show ?thesis
    unfolding CalcMeanFreq_folds [OF l assms(2)] CalcMeanFreq_folds [OF assms(1,2)] t d n
    by (simp only: fgt_scale2 fdiv_scale2)
qed

lemma CalcMedianFreq_total_fold:
  "0 \<le> i \<Longrightarrow> len \<le> int (length fft_mag) \<Longrightarrow>
   CalcMedianFreq_total fft_mag len i tot =
     Some (foldl fadd tot (drop (nat i) (take (nat len) fft_mag)))"
proof (induction fft_mag len i tot rule: CalcMedianFreq_total.induct)
  case (1 fft_mag len i tot)
  show ?case
  proof (cases "i < len")
    case True
    have mi: "at_index fft_mag i = Some (fft_mag ! nat i)"
      using True "1.prems" by (simp add: at_index_def)
    have s: "nat (i + 1) = Suc (nat i)"
      using "1.prems" by simp
    have dm: "drop (nat i) (take (nat len) fft_mag) =
        fft_mag ! nat i # drop (Suc (nat i)) (take (nat len) fft_mag)"
      using True "1.prems" by (intro drop_take_step) simp_all
    have "CalcMedianFreq_total fft_mag len (i + 1) (fadd tot (fft_mag ! nat i)) =
        Some (foldl fadd (fadd tot (fft_mag ! nat i)) (drop (Suc (nat i)) (take (nat len) fft_mag)))"
      using "1.IH" [OF True mi] "1.prems" by (simp add: s)
    then show ?thesis
      using True mi by (subst CalcMedianFreq_total.simps) (simp add: dm)
  next
    case False
    then have "nat len \<le> nat i" by simp
    with False show ?thesis
      by (subst CalcMedianFreq_total.simps) simp
  qed
qed

lemma CalcMedianFreq_scan_scale2:
  "0 \<le> i \<Longrightarrow> len \<le> int (length fft_mag) \<Longrightarrow> length mag' = length fft_mag \<Longrightarrow>
   take (nat len) mag' = map (scale2 j) (take (nat len) fft_mag) \<Longrightarrow>
   adds_safe j accum (drop (nat i) (take (nat len) fft_mag)) \<Longrightarrow>
   CalcMedianFreq_scan mag' freqs len (scale2 j half) i (scale2 j accum) =
   CalcMedianFreq_scan fft_mag freqs len half i accum"
proof (induction fft_mag freqs len half i accum rule: CalcMedianFreq_scan.induct)
  case (1 fft_mag freqs len half i accum)
  show ?case
  proof (cases "i < len")
    case True
    let ?mi = "fft_mag ! nat i"
    have mi: "at_index fft_mag i = Some ?mi"
      using True "1.prems" by (simp add: at_index_def)
    have il: "nat i < nat len" "nat i < length (take (nat len) fft_mag)"
      using True "1.prems" by simp_all
    have "mag' ! nat i = take (nat len) mag' ! nat i"
      using il(1) by simp
    also have "\<dots> = map (scale2 j) (take (nat len) fft_mag) ! nat i"
      using "1.prems"(4) by (simp only:)
    also have "\<dots> = scale2 j (take (nat len) fft_mag ! nat i)"
      using il(2) by (rule nth_map)
    also have "\<dots> = scale2 j ?mi"
      using il(1) by simp
    finally have mi': "at_index mag' i = Some (scale2 j ?mi)"
      using True "1.prems" by (simp add: at_index_def)
    have s: "nat (i + 1) = Suc (nat i)"
      using "1.prems" by simp
    have dm: "drop (nat i) (take (nat len) fft_mag) =
        ?mi # drop (Suc (nat i)) (take (nat len) fft_mag)"
      using True "1.prems" by (intro drop_take_step) simp_all
    have safe: "op_safe j (fval accum + fval ?mi)"
      "adds_safe j (fadd accum ?mi) (drop (Suc (nat i)) (take (nat len) fft_mag))"
      using "1.prems"(5) unfolding dm by simp_all
    have a: "fadd (scale2 j accum) (scale2 j ?mi) = scale2 j (fadd accum ?mi)"
      using safe(1) by (rule fadd_scale2)
    show ?thesis
    proof (cases "fge (fadd accum ?mi) half")
      case g: True
      have "CalcMedianFreq_scan fft_mag freqs len half i accum = at_index freqs i"
        using True mi g by (subst CalcMedianFreq_scan.simps) simp
      moreover have "CalcMedianFreq_scan mag' freqs len (scale2 j half) i (scale2 j accum) =
          at_index freqs i"
        using True mi' g by (subst CalcMedianFreq_scan.simps) (simp add: a fge_scale2)
      ultimately show ?thesis by simp
    next
      case g: False
      have ih: "CalcMedianFreq_scan mag' freqs len (scale2 j half) (i + 1) (scale2 j (fadd accum ?mi)) =
          CalcMedianFreq_scan fft_mag freqs len half (i + 1) (fadd accum ?mi)"
        using "1.IH" [OF True mi g] "1.prems" safe(2) by (simp add: s)
      have "CalcMedianFreq_scan fft_mag freqs len half i accum =
          CalcMedianFreq_scan fft_mag freqs len half (i + 1) (fadd accum ?mi)"
        using True mi g by (subst CalcMedianFreq_scan.simps) simp
      moreover have "CalcMedianFreq_scan mag' freqs len (scale2 j half) i (scale2 j accum) =
          CalcMedianFreq_scan mag' freqs len (scale2 j half) (i + 1) (scale2 j (fadd accum ?mi))"
        using True mi' g by (subst CalcMedianFreq_scan.simps) (simp add: a fge_scale2)
      ultimately show ?thesis using ih by simp
    qed
  next
    case False
    then show ?thesis
      by (subst CalcMedianFreq_scan.simps, subst (2) CalcMedianFreq_scan.simps) simp
  qed
qed

lemma CalcMedianFreq_scale2:
  assumes "len \<le> int (length fft_mag)" and "spectrum_safe j fft_mag freqs len"
  shows "CalcMedianFreq (scale_mag (Fin (2 powi j)) fft_mag) freqs len =
         CalcMedianFreq fft_mag freqs len"
proof -
  let ?m = "take (nat len) fft_mag"
  let ?s = "scale_mag (Fin (2 powi j)) fft_mag"
  have safe: "mags_safe j ?m" "adds_safe j (Fin 0) ?m" "op_safe j (fval (sum32 ?m) / 2)"
    using assms(2) by (simp_all add: spectrum_safe_def)
  have t: "take (nat len) ?s = map (scale2 j) ?m"
    using safe(1) by (rule scale_mag_take)
  have l: "length ?s = length fft_mag" "len \<le> int (length ?s)"
    using assms(1) by (simp_all add: scale_mag_def)
  have tot: "CalcMedianFreq_total fft_mag len 0 (Fin 0) = Some (sum32 ?m)"
    using CalcMedianFreq_total_fold [of 0 len fft_mag "Fin 0"] assms(1) by (simp add: sum32_def)
  have "CalcMedianFreq_total ?s len 0 (Fin 0) = Some (sum32 (take (nat len) ?s))"
    using CalcMedianFreq_total_fold [of 0 len ?s "Fin 0"] l(2) by (simp add: sum32_def)
  then have tot': "CalcMedianFreq_total ?s len 0 (Fin 0) = Some (scale2 j (sum32 ?m))"
    unfolding t using safe(2) by (simp add: sum32_scale2)
  have half: "fdiv (scale2 j (sum32 ?m)) (Fin 2) = scale2 j (fdiv (sum32 ?m) (Fin 2))"
    using safe(3) by (rule fdiv_scale2_two)
  have "CalcMedianFreq_scan ?s freqs len (scale2 j (fdiv (sum32 ?m) (Fin 2))) 0 (scale2 j (Fin 0)) =
        CalcMedianFreq_scan fft_mag freqs len (fdiv (sum32 ?m) (Fin 2)) 0 (Fin 0)"
    using assms(1) l(1) t safe(2) by (intro CalcMedianFreq_scan_scale2) simp_all
  then show ?thesis
    by (simp add: CalcMedianFreq_def tot tot' half)
qed

text \<open>
  Claim C8, as the code has it. The two metrics are unchanged when every magnitude is
  multiplied by a power of two \<open>2 powi j\<close> that is a value of the format, provided that
  no operation leaves the normal range with or without the scaling (\<open>spectrum_safe\<close>):
  then every product and every sum of the scaled computation is the scaled result of the
  original one, rounded alike, and the quotient and the comparisons are the same.
\<close>

theorem scale_invariance_power_of_two:
  assumes "len \<le> int (length fft_mag)" and "len \<le> int (length freqs)"
    and "representable (Fin (2 powi j))" and "spectrum_safe j fft_mag freqs len"
  shows "CalcMeanFreq (scale_mag (Fin (2 powi j)) fft_mag) freqs len =
           CalcMeanFreq fft_mag freqs len \<and>
         CalcMedianFreq (scale_mag (Fin (2 powi j)) fft_mag) freqs len =
           CalcMedianFreq fft_mag freqs len"
  using CalcMeanFreq_scale2 [OF assms(1,2,4)] CalcMedianFreq_scale2 [OF assms(1,4)] by simp

text \<open>The binary32 operations of the examples below.\<close>

lemma scale_arith_1: "fmul (Fin 1) (Fin 1) = Fin 1"
  by (simp add: f32_unfold, subst round32_up [where k = 23]) (simp_all add: rne_def)

lemma scale_arith_2: "fadd (Fin 0) (Fin 1) = Fin 1"
  by (simp add: f32_unfold, subst round32_up [where k = 23]) (simp_all add: rne_def)

lemma scale_arith_3: "fmul (Fin 2) (Fin (8388609 / 8388608)) = Fin (8388609 / 4194304)"
  by (simp add: f32_unfold, subst round32_up [where k = 22]) (simp_all add: rne_def)

lemma scale_arith_4: "fadd (Fin 1) (Fin (8388609 / 4194304)) = Fin (12582913 / 4194304)"
  by (simp add: f32_unfold, subst round32_up [where k = 22]) (simp_all add: rne_def)

lemma scale_arith_5: "fadd (Fin 1) (Fin (8388609 / 8388608)) = Fin 2"
  by (simp add: f32_unfold, subst round32_up [where k = 22]) (simp_all add: rne_def)

lemma scale_arith_6: "fdiv (Fin (12582913 / 4194304)) (Fin 2) = Fin (12582913 / 8388608)"
  by (simp add: f32_unfold, subst round32_up [where k = 23]) (simp_all add: rne_def)

lemma scale_arith_7: "fdiv (Fin 2) (Fin 2) = Fin 1"
  by (simp add: f32_unfold, subst round32_up [where k = 23]) (simp_all add: rne_def)

lemma scale_arith_8: "fmul (Fin 3) (Fin 1) = Fin 3"
  by (simp add: f32_unfold, subst round32_up [where k = 22]) (simp_all add: rne_def)

lemma scale_arith_9: "fmul (Fin 3) (Fin (8388609 / 8388608)) = Fin (6291457 / 2097152)"
  by (simp add: f32_unfold, subst round32_up [where k = 22]) (simp_all add: rne_def)

lemma scale_arith_10: "fmul (Fin 1) (Fin 3) = Fin 3"
  by (simp add: f32_unfold, subst round32_up [where k = 22]) (simp_all add: rne_def)

lemma scale_arith_11: "fadd (Fin 0) (Fin 3) = Fin 3"
  by (simp add: f32_unfold, subst round32_up [where k = 22]) (simp_all add: rne_def)

lemma scale_arith_12: "fmul (Fin 2) (Fin (6291457 / 2097152)) = Fin (6291457 / 1048576)"
  by (simp add: f32_unfold, subst round32_up [where k = 21]) (simp_all add: rne_def)

lemma scale_arith_13: "fadd (Fin 3) (Fin (6291457 / 1048576)) = Fin (9437185 / 1048576)"
  by (simp add: f32_unfold, subst round32_up [where k = 20]) (simp_all add: rne_def)

lemma scale_arith_14: "fadd (Fin 3) (Fin (6291457 / 2097152)) = Fin (12582913 / 2097152)"
  by (simp add: f32_unfold, subst round32_up [where k = 21]) (simp_all add: rne_def)

lemma scale_arith_15: "fdiv (Fin (9437185 / 1048576)) (Fin (12582913 / 2097152)) = Fin (3 / 2)"
  by (simp add: f32_unfold, subst round32_up [where k = 23]) (simp_all add: rne_def)

lemma scale_arith_16: "fdiv (Fin (12582913 / 2097152)) (Fin 2) = Fin (12582913 / 4194304)"
  by (simp add: f32_unfold, subst round32_up [where k = 22]) (simp_all add: rne_def)

lemma scale_arith_17: "fmul (Fin 1) (Fin (1 / 713623846352979940529142984724747568191373312)) = Fin (1 / 713623846352979940529142984724747568191373312)"
  by (simp add: f32_unfold, subst round32_subnormal) (simp_all add: rne_def zero_of_def)

lemma scale_arith_18: "fadd (Fin 0) (Fin (1 / 713623846352979940529142984724747568191373312)) = Fin (1 / 713623846352979940529142984724747568191373312)"
  by (simp add: f32_unfold, subst round32_subnormal) (simp_all add: rne_def zero_of_def)

lemma scale_arith_19: "fmul (Fin 2) (Fin (1 / 356811923176489970264571492362373784095686656)) = Fin (1 / 178405961588244985132285746181186892047843328)"
  by (simp add: f32_unfold, subst round32_subnormal) (simp_all add: rne_def zero_of_def)

lemma scale_arith_20: "fadd (Fin (1 / 713623846352979940529142984724747568191373312)) (Fin (1 / 178405961588244985132285746181186892047843328)) = Fin (5 / 713623846352979940529142984724747568191373312)"
  by (simp add: f32_unfold, subst round32_subnormal) (simp_all add: rne_def zero_of_def)

lemma scale_arith_21: "fadd (Fin (1 / 713623846352979940529142984724747568191373312)) (Fin (1 / 356811923176489970264571492362373784095686656)) = Fin (3 / 713623846352979940529142984724747568191373312)"
  by (simp add: f32_unfold, subst round32_subnormal) (simp_all add: rne_def zero_of_def)

lemma scale_arith_22: "fdiv (Fin (5 / 713623846352979940529142984724747568191373312)) (Fin (3 / 713623846352979940529142984724747568191373312)) = Fin (13981013 / 8388608)"
  by (simp add: f32_unfold, subst round32_up [where k = 23]) (simp_all add: rne_def)

lemma scale_arith_23: "fdiv (Fin (3 / 713623846352979940529142984724747568191373312)) (Fin 2) = Fin (1 / 356811923176489970264571492362373784095686656)"
  by (simp add: f32_unfold, subst round32_subnormal) (simp_all add: rne_def zero_of_def)

lemma scale_arith_24: "fmul (Fin (1 / 2)) (Fin (1 / 713623846352979940529142984724747568191373312)) = Fin 0"
  by (simp add: f32_unfold, subst round32_subnormal) (simp_all add: rne_def zero_of_def)

lemma scale_arith_25: "fmul (Fin (1 / 2)) (Fin (1 / 356811923176489970264571492362373784095686656)) = Fin (1 / 713623846352979940529142984724747568191373312)"
  by (simp add: f32_unfold, subst round32_subnormal) (simp_all add: rne_def zero_of_def)

lemma scale_arith_26: "fmul (Fin 1) (Fin 0) = Fin 0"
  by (simp add: f32_unfold)

lemma scale_arith_27: "fadd (Fin 0) (Fin 0) = Fin 0"
  by (simp add: f32_unfold)

lemma scale_arith_28: "fmul (Fin 2) (Fin (1 / 713623846352979940529142984724747568191373312)) = Fin (1 / 356811923176489970264571492362373784095686656)"
  by (simp add: f32_unfold, subst round32_subnormal) (simp_all add: rne_def zero_of_def)

lemma scale_arith_29: "fadd (Fin 0) (Fin (1 / 356811923176489970264571492362373784095686656)) = Fin (1 / 356811923176489970264571492362373784095686656)"
  by (simp add: f32_unfold, subst round32_subnormal) (simp_all add: rne_def zero_of_def)

lemma scale_arith_30: "fdiv (Fin (1 / 356811923176489970264571492362373784095686656)) (Fin (1 / 713623846352979940529142984724747568191373312)) = Fin 2"
  by (simp add: f32_unfold, subst round32_up [where k = 22]) (simp_all add: rne_def)

lemma scale_arith_31: "fdiv (Fin (1 / 713623846352979940529142984724747568191373312)) (Fin 2) = Fin 0"
  by (simp add: f32_unfold, subst round32_subnormal) (simp_all add: rne_def zero_of_def)

lemmas scale_arith =
  scale_arith_1 scale_arith_2 scale_arith_3 scale_arith_4 scale_arith_5 scale_arith_6
  scale_arith_7 scale_arith_8 scale_arith_9 scale_arith_10 scale_arith_11 scale_arith_12
  scale_arith_13 scale_arith_14 scale_arith_15 scale_arith_16 scale_arith_17 scale_arith_18
  scale_arith_19 scale_arith_20 scale_arith_21 scale_arith_22 scale_arith_23 scale_arith_24
  scale_arith_25 scale_arith_26 scale_arith_27 scale_arith_28 scale_arith_29 scale_arith_30
  scale_arith_31

lemma representable_1: "representable (Fin 1)"
  by (simp add: representable_def, subst round32_up [where k = 23]) (simp_all add: rne_def)

lemma representable_2: "representable (Fin 2)"
  by (simp add: representable_def, subst round32_up [where k = 22]) (simp_all add: rne_def)

lemma representable_3: "representable (Fin 3)"
  by (simp add: representable_def, subst round32_up [where k = 22]) (simp_all add: rne_def)

lemma op_safe_eval:
  "op_safe 1 1" "op_safe 1 2" "op_safe 1 3" "op_safe 1 4" "op_safe 1 10" "op_safe 1 60" "op_safe 1 70"
  by (simp_all add: op_safe_def in_normal_range_def)

text \<open>
  The magnitudes 1, 3 at 10 and 20 Hz, doubled.
\<close>

theorem scale_invariance_power_of_two_witness:
  "representable (Fin 2) \<and> spectrum_safe 1 [Fin 1, Fin 3] [Fin 10, Fin 20] 2 \<and>
   CalcMeanFreq (scale_mag (Fin 2) [Fin 1, Fin 3]) [Fin 10, Fin 20] 2 =
     CalcMeanFreq [Fin 1, Fin 3] [Fin 10, Fin 20] 2 \<and>
   CalcMedianFreq (scale_mag (Fin 2) [Fin 1, Fin 3]) [Fin 10, Fin 20] 2 =
     CalcMedianFreq [Fin 1, Fin 3] [Fin 10, Fin 20] 2"
proof -
  have s: "spectrum_safe 1 [Fin 1, Fin 3] [Fin 10, Fin 20] 2"
    by (simp add: spectrum_safe_def mags_safe_def representable_1 representable_3 sum32_def
        fmul_10_1 fmul_20_3 fadd_0_10 fadd_10_60 fadd_0_1 fadd_1_3 fval_def op_safe_eval)
  show ?thesis
    using scale_invariance_power_of_two [of 2 "[Fin 1, Fin 3]" "[Fin 10, Fin 20]" 1] s
    by (simp add: representable_2)
qed

lemma fgt_eval:
  "fgt (Fin 2) (Fin 0)" "fgt (Fin (12582913 / 2097152)) (Fin 0)"
  "fgt (Fin (3 / 713623846352979940529142984724747568191373312)) (Fin 0)"
  "fgt (Fin (1 / 713623846352979940529142984724747568191373312)) (Fin 0)"
  by (simp_all add: fgt_def is_finite_def fval_def)

lemma representable_examples:
  "representable (Fin (8388609 / 8388608))"
  "representable (Fin (1 / 713623846352979940529142984724747568191373312))"
  "representable (Fin (1 / 356811923176489970264571492362373784095686656))"
  by (simp add: representable_def, subst round32_up [where k = 23], simp_all add: rne_def)
     (simp add: representable_def, subst round32_subnormal, simp_all add: rne_def)+

text \<open>
  The claim as the specification states it (any positive \<open>k\<close>, any magnitudes) fails
  for both metrics. With \<open>k = 3\<close> on the magnitudes \<open>1, 1 + 2 powi (- 23)\<close> at 1 and 2 Hz
  the roundings of the sums differ: the mean frequency goes from \<open>1.5 + 2 powi (- 23)\<close> to
  1.5 and the median from 1 to 2 Hz. With \<open>k = 1 / 2\<close> on the subnormal magnitudes
  \<open>2 powi (- 149), 2 powi (- 148)\<close> the first scaled magnitude underflows to zero: the mean
  goes from the binary32 value of 5 / 3 to 2 and the median from 2 to 1 Hz.
\<close>

theorem scale_invariance_fails:
  "list_all representable [Fin 1, Fin (8388609 / 8388608)] \<and>
   CalcMeanFreq [Fin 1, Fin (8388609 / 8388608)] [Fin 1, Fin 2] 2 = Some (Fin (12582913 / 8388608)) \<and>
   CalcMeanFreq (scale_mag (Fin 3) [Fin 1, Fin (8388609 / 8388608)]) [Fin 1, Fin 2] 2 =
     Some (Fin (3 / 2)) \<and>
   CalcMedianFreq [Fin 1, Fin (8388609 / 8388608)] [Fin 1, Fin 2] 2 = Some (Fin 1) \<and>
   CalcMedianFreq (scale_mag (Fin 3) [Fin 1, Fin (8388609 / 8388608)]) [Fin 1, Fin 2] 2 =
     Some (Fin 2) \<and>
   list_all representable [Fin (1 / 713623846352979940529142984724747568191373312), Fin (1 / 356811923176489970264571492362373784095686656)] \<and>
   CalcMeanFreq [Fin (1 / 713623846352979940529142984724747568191373312), Fin (1 / 356811923176489970264571492362373784095686656)] [Fin 1, Fin 2] 2 = Some (Fin (13981013 / 8388608)) \<and>
   CalcMeanFreq (scale_mag (Fin (1 / 2)) [Fin (1 / 713623846352979940529142984724747568191373312), Fin (1 / 356811923176489970264571492362373784095686656)]) [Fin 1, Fin 2] 2 =
     Some (Fin 2) \<and>
   CalcMedianFreq [Fin (1 / 713623846352979940529142984724747568191373312), Fin (1 / 356811923176489970264571492362373784095686656)] [Fin 1, Fin 2] 2 = Some (Fin 2) \<and>
   CalcMedianFreq (scale_mag (Fin (1 / 2)) [Fin (1 / 713623846352979940529142984724747568191373312), Fin (1 / 356811923176489970264571492362373784095686656)]) [Fin 1, Fin 2] 2 =
     Some (Fin 1)"
proof -
  have r: "list_all representable [Fin 1, Fin (8388609 / 8388608)]"
    "list_all representable [Fin (1 / 713623846352979940529142984724747568191373312), Fin (1 / 356811923176489970264571492362373784095686656)]"
    by (simp_all add: representable_1 representable_examples)
  have m: "CalcMeanFreq [Fin 1, Fin (8388609 / 8388608)] [Fin 1, Fin 2] 2 = Some (Fin (12582913 / 8388608))"
    "CalcMeanFreq (scale_mag (Fin 3) [Fin 1, Fin (8388609 / 8388608)]) [Fin 1, Fin 2] 2 =
     Some (Fin (3 / 2))"
    "CalcMeanFreq [Fin (1 / 713623846352979940529142984724747568191373312), Fin (1 / 356811923176489970264571492362373784095686656)] [Fin 1, Fin 2] 2 = Some (Fin (13981013 / 8388608))"
    "CalcMeanFreq (scale_mag (Fin (1 / 2)) [Fin (1 / 713623846352979940529142984724747568191373312), Fin (1 / 356811923176489970264571492362373784095686656)]) [Fin 1, Fin 2] 2 =
     Some (Fin 2)"
    by (simp_all add: CalcMeanFreq_folds scale_mag_def sum32_def weighted_sum32_def scale_arith
        fgt_eval fadd_0_1)
  have d: "CalcMedianFreq [Fin 1, Fin (8388609 / 8388608)] [Fin 1, Fin 2] 2 = Some (Fin 1)"
    "CalcMedianFreq (scale_mag (Fin 3) [Fin 1, Fin (8388609 / 8388608)]) [Fin 1, Fin 2] 2 =
     Some (Fin 2)"
    "CalcMedianFreq [Fin (1 / 713623846352979940529142984724747568191373312), Fin (1 / 356811923176489970264571492362373784095686656)] [Fin 1, Fin 2] 2 = Some (Fin 2)"
    "CalcMedianFreq (scale_mag (Fin (1 / 2)) [Fin (1 / 713623846352979940529142984724747568191373312), Fin (1 / 356811923176489970264571492362373784095686656)]) [Fin 1, Fin 2] 2 =
     Some (Fin 1)"
    by (simp_all add: CalcMedianFreq_def scale_mag_def CalcMedianFreq_total.simps
        CalcMedianFreq_scan.simps at_index_def scale_arith fadd_0_1 fge_def is_finite_def fval_def)
  show ?thesis
    using r m d by simp
qed

subsection \<open>The circular buffer\<close>

lemma ring_holds_boot: "0 < LEN \<Longrightarrow> ring_holds LEN (ring_boot LEN) []"
  by (simp add: ring_holds_def ring_boot_def)

lemma uint16_small: "0 \<le> v \<Longrightarrow> v < 65536 \<Longrightarrow> uint (word_of_int v :: 16 word) = v"
  by (simp add: uint_word_of_int)

lemma mod_neq_close:
  fixes k n L :: int
  assumes "k < n" and "n - k < L"
  shows "k mod L \<noteq> n mod L"
proof
  assume e: "k mod L = n mod L"
  have "(n - k) mod L = (n mod L - k mod L) mod L" by (simp add: mod_diff_eq)
  then have "(n - k) mod L = 0" using e by simp
  moreover have "(n - k) mod L = n - k" using assms by simp
  ultimately show False using assms by simp
qed

lemma CircularBufferWrite_holds:
  assumes h: "ring_holds LEN rb xs" and L: "0 < LEN" "LEN < 65536"
  shows "\<exists>rb'. CircularBufferWrite LEN x rb = Some rb' \<and> ring_holds LEN rb' (xs @ [x])"
proof -
  let ?n = "int (length xs)"
  have len: "int (length (emg_buffer rb)) = LEN"
    and wi: "uint (write_index rb) = ?n mod LEN"
    and sc: "uint (sample_count rb) = min ?n LEN"
    and el: "\<And>k. k < length xs \<Longrightarrow> ?n \<le> int k + LEN \<Longrightarrow> emg_buffer rb ! nat (int k mod LEN) = xs ! k"
    using h by (simp_all add: ring_holds_def)
  have wr: "0 \<le> ?n mod LEN" "?n mod LEN < LEN" using L by simp_all
  have st: "store_at (emg_buffer rb) (uint (write_index rb)) x = Some ((emg_buffer rb)[nat (?n mod LEN) := x])"
    using wr len wi by (simp add: store_at_def)
  have nx: "(uint (write_index rb) + 1) smod LEN = (?n + 1) mod LEN"
  proof -
    have "(uint (write_index rb) + 1) smod LEN = (?n mod LEN + 1) mod LEN"
      using wi wr L by (simp add: smod_mod_positive)
    then show ?thesis by (simp add: mod_add_left_eq)
  qed
  have nx_u: "uint (word_of_int ((?n + 1) mod LEN) :: 16 word) = (?n + 1) mod LEN"
  proof (rule uint16_small)
    show "0 \<le> (?n + 1) mod LEN" using L by simp
    have "(?n + 1) mod LEN < LEN" using L by simp
    then show "(?n + 1) mod LEN < 65536" using L by linarith
  qed
  have cnt: "uint (if uint (sample_count rb) < LEN then sample_count rb + 1 else sample_count rb)
      = min (?n + 1) LEN"
  proof (cases "?n < LEN")
    case True
    then have u: "uint (sample_count rb) = ?n" using sc by simp
    have "uint (sample_count rb + 1) = (?n + 1) mod 65536"
      using u by (simp add: uint_word_ariths)
    moreover have "(?n + 1) mod 65536 = ?n + 1" using True L by simp
    ultimately show ?thesis using True u by simp
  next
    case False
    then show ?thesis using sc by simp
  qed
  let ?rb = "\<lparr>emg_buffer = (emg_buffer rb)[nat (?n mod LEN) := x],
              write_index = word_of_int ((uint (write_index rb) + 1) smod LEN),
              sample_count = (if uint (sample_count rb) < LEN then sample_count rb + 1 else sample_count rb)\<rparr>"
  have res: "CircularBufferWrite LEN x rb = Some ?rb"
    using L st by (simp add: CircularBufferWrite_def)
  have elts: "emg_buffer ?rb ! nat (int k mod LEN) = (xs @ [x]) ! k"
    if k: "k < length (xs @ [x])" "int (length (xs @ [x])) \<le> int k + LEN" for k
  proof (cases "k = length xs")
    case True
    then show ?thesis using wr len by simp
  next
    case False
    then have kl: "k < length xs" using k by simp
    have "int k mod LEN \<noteq> ?n mod LEN"
      using kl k by (intro mod_neq_close) simp_all
    moreover have "0 \<le> int k mod LEN" using L by simp
    ultimately have "nat (int k mod LEN) \<noteq> nat (?n mod LEN)"
      using wr(1) by (metis eq_nat_nat_iff)
    then have "emg_buffer ?rb ! nat (int k mod LEN) = emg_buffer rb ! nat (int k mod LEN)"
      by simp
    also have "\<dots> = xs ! k" using el [OF kl] k by simp
    finally show ?thesis using kl by (simp add: nth_append)
  qed
  have "ring_holds LEN ?rb (xs @ [x])"
    unfolding ring_holds_def
  proof (intro conjI allI impI)
    show "int (length (emg_buffer ?rb)) = LEN" using len by simp
    show "uint (write_index ?rb) = int (length (xs @ [x])) mod LEN"
      using nx nx_u by (simp add: add.commute)
    show "uint (sample_count ?rb) = min (int (length (xs @ [x]))) LEN"
      using cnt by simp
    show "emg_buffer ?rb ! nat (int k mod LEN) = (xs @ [x]) ! k"
      if "k < length (xs @ [x]) \<and> int (length (xs @ [x])) \<le> int k + LEN" for k
      using elts that by blast
  qed
  with res show ?thesis by blast
qed

lemma write_samples_holds:
  "ring_holds LEN rb pre \<Longrightarrow> 0 < LEN \<Longrightarrow> LEN < 65536 \<Longrightarrow>
   \<exists>rb'. write_samples LEN xs rb = Some rb' \<and> ring_holds LEN rb' (pre @ xs)"
proof (induction xs arbitrary: rb pre)
  case Nil
  then show ?case by simp
next
  case (Cons x xs)
  obtain rb1 where rb1: "CircularBufferWrite LEN x rb = Some rb1" "ring_holds LEN rb1 (pre @ [x])"
    using CircularBufferWrite_holds [OF Cons.prems] by blast
  obtain rb2 where "write_samples LEN xs rb1 = Some rb2" "ring_holds LEN rb2 ((pre @ [x]) @ xs)"
    using Cons.IH [OF rb1(2) Cons.prems(2,3)] by blast
  with rb1 show ?case by simp
qed

lemma CircularBufferReadWindow_loop_copies:
  "0 \<le> i \<Longrightarrow> i \<le> SIZE \<Longrightarrow> int (length window) = SIZE \<Longrightarrow> 0 < LEN \<Longrightarrow>
   int (length buf) = LEN \<Longrightarrow> 0 \<le> start \<Longrightarrow>
   \<exists>w. CircularBufferReadWindow_loop SIZE LEN buf start i window = Some w \<and>
       length w = length window \<and>
       (\<forall>j<length window. w ! j =
          (if nat i \<le> j then buf ! nat ((start + int j) mod LEN) else window ! j))"
proof (induction SIZE LEN buf start i window rule: CircularBufferReadWindow_loop.induct)
  case (1 SIZE LEN buf start i window)
  show ?case
  proof (cases "i < SIZE")
    case True
    let ?v = "buf ! nat ((start + i) mod LEN)"
    have rd: "at_index buf ((start + i) smod LEN) = Some ?v"
      using "1.prems" by (simp add: at_index_def smod_mod_positive)
    have st: "store_at window i ?v = Some (window[nat i := ?v])"
      using "1.prems" True by (simp add: store_at_def)
    obtain w where w: "CircularBufferReadWindow_loop SIZE LEN buf start (i + 1) (window[nat i := ?v]) = Some w"
      "length w = length (window[nat i := ?v])"
      "\<And>j. j < length (window[nat i := ?v]) \<Longrightarrow> w ! j =
          (if nat (i + 1) \<le> j then buf ! nat ((start + int j) mod LEN) else window[nat i := ?v] ! j)"
      using "1.IH" [OF True rd st] "1.prems" True by auto
    have eq: "CircularBufferReadWindow_loop SIZE LEN buf start i window = Some w"
      using True rd st w(1) by (subst CircularBufferReadWindow_loop.simps) simp
    have "w ! j = (if nat i \<le> j then buf ! nat ((start + int j) mod LEN) else window ! j)"
      if j: "j < length window" for j
    proof (cases "j = nat i")
      case True
      then show ?thesis using w(3) [of j] j "1.prems" by simp
    next
      case False
      then show ?thesis using w(3) [of j] j "1.prems" by auto
    qed
    with eq w(2) show ?thesis by simp
  next
    case False
    then have "nat i \<ge> length window" using "1.prems" by simp
    with False show ?thesis
      by (subst CircularBufferReadWindow_loop.simps) simp
  qed
qed

lemma CircularBufferReadWindow_last:
  assumes h: "ring_holds LEN rb xs" and L: "0 < LEN" "LEN < 65536"
    and n: "0 \<le> n" "n \<le> LEN" "n \<le> int (length xs)" and w: "int (length window) = n"
  shows "CircularBufferReadWindow n LEN rb window = Some (drop (length xs - nat n) xs)"
proof -
  let ?l = "int (length xs)"
  have len: "int (length (emg_buffer rb)) = LEN"
    and wi: "uint (write_index rb) = ?l mod LEN"
    and sc: "uint (sample_count rb) = min ?l LEN"
    and el: "\<And>k. k < length xs \<Longrightarrow> ?l \<le> int k + LEN \<Longrightarrow> emg_buffer rb ! nat (int k mod LEN) = xs ! k"
    using h by (simp_all add: ring_holds_def)
  have full: "\<not> uint (sample_count rb) < n" using sc n by simp
  let ?s = "(?l - n) mod LEN"
  have "0 \<le> ?l mod LEN" using L by simp
  then have nn: "0 \<le> ?l mod LEN - n + LEN" using n by linarith
  have "(?l mod LEN - n + LEN) smod LEN = (?l mod LEN - n + LEN) mod LEN"
    using nn L by (intro smod_mod_positive) simp_all
  also have "\<dots> = (?l mod LEN - n) mod LEN" by simp
  also have "\<dots> = ?s" by (simp add: mod_diff_left_eq)
  finally have start: "(uint (write_index rb) - n + LEN) smod LEN = ?s" using wi by simp
  have su: "uint (word_of_int ?s :: 16 word) = ?s"
  proof (rule uint16_small)
    show "0 \<le> ?s" using L by simp
    have "?s < LEN" using L by simp
    then show "?s < 65536" using L by linarith
  qed
  have s0: "0 \<le> ?s" using L by simp
  obtain r where r: "CircularBufferReadWindow_loop n LEN (emg_buffer rb) ?s 0 window = Some r"
    "length r = length window"
    "\<And>j. j < length window \<Longrightarrow> r ! j = emg_buffer rb ! nat ((?s + int j) mod LEN)"
    using CircularBufferReadWindow_loop_copies [of 0 n window LEN "emg_buffer rb" ?s] n w L len s0
    by auto
  have res: "CircularBufferReadWindow n LEN rb window = Some r"
    using full L start su r(1) by (simp add: CircularBufferReadWindow_def Let_def)
  have "r = drop (length xs - nat n) xs"
  proof (rule nth_equalityI)
    show "length r = length (drop (length xs - nat n) xs)"
      using r(2) w n by simp
  next
    fix j assume "j < length r"
    then have j: "j < length window" "int j < n" using r(2) w by simp_all
    let ?k = "length xs - nat n + j"
    have k: "?k < length xs" "?l \<le> int ?k + LEN" "int ?k = ?l - n + int j"
      using j n by simp_all
    have "r ! j = emg_buffer rb ! nat ((?s + int j) mod LEN)" using r(3) j by simp
    also have "(?s + int j) mod LEN = int ?k mod LEN"
      unfolding k(3) by (simp only: mod_add_left_eq)
    also have "emg_buffer rb ! nat (int ?k mod LEN) = xs ! ?k" by (rule el [OF k(1) k(2)])
    finally show "r ! j = drop (length xs - nat n) xs ! j" using k n by simp
  qed
  with res show ?thesis by simp
qed

text \<open>
  Claim C7. For every capacity \<open>LEN\<close> that the 16-bit cursor and count can hold, every
  window length \<open>n \<le> LEN\<close> and every sequence \<open>xs\<close> of at least \<open>n\<close> samples written after
  boot, all the writes succeed and the window read afterwards holds exactly the last
  \<open>n\<close> samples of \<open>xs\<close>, oldest first, whether or not the cursor has wrapped around. The
  firmware is the instance \<open>LEN = n = 512\<close>.
\<close>

theorem snapshot_last_samples:
  assumes "0 < LEN" and "LEN < 65536" and "0 \<le> n" and "n \<le> LEN"
    and "n \<le> int (length xs)" and "int (length window) = n"
  shows "\<exists>rb. write_samples LEN xs (ring_boot LEN) = Some rb \<and>
           CircularBufferReadWindow n LEN rb window = Some (drop (length xs - nat n) xs)"
proof -
  obtain rb where rb: "write_samples LEN xs (ring_boot LEN) = Some rb" "ring_holds LEN rb xs"
    using write_samples_holds [OF ring_holds_boot, of LEN xs] assms by auto
  show ?thesis
    using rb(1) CircularBufferReadWindow_last [OF rb(2) assms] by blast
qed

theorem snapshot_last_samples_witness:
  "\<exists>rb. write_samples 4 [Fin 1, Fin 2, Fin 3, Fin 4, Fin 5, Fin 6] (ring_boot 4) = Some rb \<and>
        CircularBufferReadWindow 3 4 rb [Fin 0, Fin 0, Fin 0] = Some [Fin 4, Fin 5, Fin 6]"
  using snapshot_last_samples
    [of 4 3 "[Fin 1, Fin 2, Fin 3, Fin 4, Fin 5, Fin 6]" "[Fin 0, Fin 0, Fin 0]"]
  by simp

text \<open>The instance of the firmware: capacity and window length are both 512.\<close>

lemma firmware_window:
  assumes "BUFFER_SIZE \<le> int (length xs)" and "int (length window) = BUFFER_SIZE"
  shows "\<exists>rb. write_samples EMG_BUFFER_LEN xs (ring_boot EMG_BUFFER_LEN) = Some rb \<and>
           CircularBufferReadWindow BUFFER_SIZE EMG_BUFFER_LEN rb window =
             Some (drop (length xs - nat BUFFER_SIZE) xs)"
proof -
  have L: "0 < EMG_BUFFER_LEN" "EMG_BUFFER_LEN < 65536" "0 \<le> BUFFER_SIZE"
    "BUFFER_SIZE \<le> EMG_BUFFER_LEN"
    by (simp_all add: EMG_BUFFER_LEN_def BUFFER_SIZE_def)
  obtain rb where rb: "write_samples EMG_BUFFER_LEN xs (ring_boot EMG_BUFFER_LEN) = Some rb"
    "ring_holds EMG_BUFFER_LEN rb xs"
    using write_samples_holds [OF ring_holds_boot, of EMG_BUFFER_LEN xs] L by auto
  show ?thesis
    using rb(1) CircularBufferReadWindow_last [OF rb(2) L(1,2,3,4) assms] by blast
qed

subsection \<open>The fatigue classifier\<close>

lemma analysis_boot_fields:
  "f_ref analysis_boot = Fin 0" "f_mean analysis_boot = Fin 0" "f_median analysis_boot = Fin 0"
  "rms_value analysis_boot = Fin 0" "window_counter analysis_boot = 0"
  "fatigue_consecutive analysis_boot = 0" "fatigue_detected analysis_boot = False"
  "f_ref_established analysis_boot = False" "f_ref_accum analysis_boot = Fin 0"
  by (simp_all add: analysis_boot_def)

lemma EMGTask_drop_block_detected:
  "EMGTask_drop_block a = Some a' \<Longrightarrow> fatigue_detected a \<Longrightarrow> fatigue_detected a'"
  by (auto simp: EMGTask_drop_block_def Let_def split: if_splits option.splits)

lemma EMGTask_baseline_block_detected:
  "EMGTask_baseline_block a = Some a' \<Longrightarrow> fatigue_detected a \<Longrightarrow> fatigue_detected a'"
  by (auto simp: EMGTask_baseline_block_def Let_def split: if_splits option.splits)

lemma EMGTask_reference_block_detected:
  assumes "EMGTask_reference_block a = Some a'" and "fatigue_detected a"
  shows "fatigue_detected a'"
proof (cases "window_counter a \<le> BASELINE_WINDOWS")
  case True
  then show ?thesis
    using assms by (auto simp: EMGTask_reference_block_def Let_def split: if_splits)
next
  case False
  show ?thesis
  proof (cases "fgt (f_ref a) (Fin 0)")
    case True
    then obtain a1 where "EMGTask_drop_block a = Some a1" and "EMGTask_baseline_block a1 = Some a'"
      using assms(1) False by (auto simp: EMGTask_reference_block_def bind_eq_Some_conv)
    then show ?thesis
      using assms(2) EMGTask_drop_block_detected EMGTask_baseline_block_detected by blast
  next
    case f: False
    then show ?thesis
      using assms False by (simp add: EMGTask_reference_block_def)
  qed
qed

lemma EMGTask_window_detected:
  "EMGTask_window r mn m a = Some a' \<Longrightarrow> fatigue_detected a \<Longrightarrow> fatigue_detected a'"
  by (auto simp: EMGTask_window_def bind_eq_Some_conv dest!: EMGTask_reference_block_detected)

lemma EMGTask_medians_detected:
  "EMGTask_medians ms a = Some a' \<Longrightarrow> fatigue_detected a \<Longrightarrow> fatigue_detected a'"
proof (induction ms arbitrary: a)
  case Nil
  then show ?case by simp
next
  case (Cons m ms)
  then show ?case
    by (auto split: option.splits dest: EMGTask_window_detected)
qed

lemma EMGTask_drop_block_frame:
  "EMGTask_drop_block a = Some a' \<Longrightarrow>
     window_counter a' = window_counter a \<and> emg_window a' = emg_window a \<and>
     (fatigue_consecutive a' = fatigue_consecutive a \<or>
      fatigue_consecutive a' = fatigue_consecutive a + 1)"
  by (auto simp: EMGTask_drop_block_def Let_def c_incr_def split: if_splits option.splits)

lemma EMGTask_baseline_block_frame:
  "EMGTask_baseline_block a = Some a' \<Longrightarrow>
     window_counter a' = window_counter a \<and> emg_window a' = emg_window a \<and>
     (fatigue_consecutive a' = fatigue_consecutive a \<or>
      fatigue_consecutive a' = fatigue_consecutive a + 1 \<or> fatigue_consecutive a' = 0)"
  by (auto simp: EMGTask_baseline_block_def Let_def c_incr_def split: if_splits option.splits)

lemma EMGTask_drop_block_Some:
  "fatigue_consecutive a < INT_MAX \<Longrightarrow> \<exists>a'. EMGTask_drop_block a = Some a'"
  by (auto simp: EMGTask_drop_block_def Let_def c_incr_def split: if_splits option.splits)

lemma EMGTask_baseline_block_Some:
  "fatigue_consecutive a < INT_MAX \<Longrightarrow> \<exists>a'. EMGTask_baseline_block a = Some a'"
  by (auto simp: EMGTask_baseline_block_def Let_def c_incr_def split: if_splits option.splits)

lemma EMGTask_reference_block_Some:
  assumes "0 \<le> fatigue_consecutive a" and "fatigue_consecutive a + 2 \<le> INT_MAX"
  shows "\<exists>a'. EMGTask_reference_block a = Some a' \<and> window_counter a' = window_counter a \<and>
           emg_window a' = emg_window a \<and>
           0 \<le> fatigue_consecutive a' \<and> fatigue_consecutive a' \<le> fatigue_consecutive a + 2"
proof (cases "window_counter a \<le> BASELINE_WINDOWS \<or> \<not> fgt (f_ref a) (Fin 0)")
  case True
  then show ?thesis
    using assms by (auto simp: EMGTask_reference_block_def Let_def)
next
  case False
  obtain a1 where a1: "EMGTask_drop_block a = Some a1"
    using EMGTask_drop_block_Some [of a] assms by auto
  note f1 = EMGTask_drop_block_frame [OF a1]
  obtain a2 where a2: "EMGTask_baseline_block a1 = Some a2"
    using EMGTask_baseline_block_Some [of a1] f1 assms by auto
  note f2 = EMGTask_baseline_block_frame [OF a2]
  have "EMGTask_reference_block a = Some a2"
    using False a1 a2 by (simp add: EMGTask_reference_block_def)
  then show ?thesis
    using f1 f2 assms by auto
qed

lemma EMGTask_window_Some:
  assumes "window_counter a < INT_MAX" and "0 \<le> fatigue_consecutive a"
    and "fatigue_consecutive a + 2 \<le> INT_MAX"
  shows "\<exists>a'. EMGTask_window r mn m a = Some a' \<and> window_counter a' = window_counter a + 1 \<and>
           0 \<le> fatigue_consecutive a' \<and> fatigue_consecutive a' \<le> fatigue_consecutive a + 2"
proof -
  let ?a0 = "a\<lparr>window_counter := window_counter a + 1, rms_value := r, f_mean := mn, f_median := m\<rparr>"
  have c: "c_incr (window_counter a) = Some (window_counter a + 1)"
    using assms by (simp add: c_incr_def)
  obtain a' where "EMGTask_reference_block ?a0 = Some a'" "window_counter a' = window_counter ?a0"
    "0 \<le> fatigue_consecutive a'" "fatigue_consecutive a' \<le> fatigue_consecutive ?a0 + 2"
    using EMGTask_reference_block_Some [of ?a0] assms by auto
  then show ?thesis
    using c by (auto simp: EMGTask_window_def)
qed

lemma EMGTask_medians_Some:
  "window_counter a + int (length ms) \<le> INT_MAX \<Longrightarrow> 0 \<le> fatigue_consecutive a \<Longrightarrow>
   fatigue_consecutive a + 2 * int (length ms) \<le> INT_MAX \<Longrightarrow>
   \<exists>a'. EMGTask_medians ms a = Some a'"
proof (induction ms arbitrary: a)
  case Nil
  then show ?case by simp
next
  case (Cons m ms)
  obtain a1 where a1: "EMGTask_window (rms_value a) (f_mean a) m a = Some a1"
    "window_counter a1 = window_counter a + 1" "0 \<le> fatigue_consecutive a1"
    "fatigue_consecutive a1 \<le> fatigue_consecutive a + 2"
    using EMGTask_window_Some [of a "rms_value a" "f_mean a" m] Cons.prems by auto
  have "\<exists>a'. EMGTask_medians ms a1 = Some a'"
    using Cons.IH [of a1] a1 Cons.prems by simp
  with a1 show ?case by simp
qed

lemma EMGTask_reference_block_no_reset:
  assumes "EMGTask_reference_block a = Some a'" and "\<not> f_ref_established a"
    and "BASELINE_WINDOWS < window_counter a \<or> window_counter a < BASELINE_WINDOWS"
  shows "\<not> f_ref_established a' \<and> fatigue_consecutive a \<le> fatigue_consecutive a'"
proof (cases "window_counter a \<le> BASELINE_WINDOWS \<or> \<not> fgt (f_ref a) (Fin 0)")
  case True
  then show ?thesis
    using assms by (auto simp: EMGTask_reference_block_def Let_def split: if_splits)
next
  case False
  then obtain a1 where a1: "EMGTask_drop_block a = Some a1"
    and a2: "EMGTask_baseline_block a1 = Some a'"
    using assms(1) by (auto simp: EMGTask_reference_block_def bind_eq_Some_conv)
  have 1: "\<not> f_ref_established a1 \<and> window_counter a1 = window_counter a \<and>
           fatigue_consecutive a \<le> fatigue_consecutive a1"
    using a1 assms(2)
    by (auto simp: EMGTask_drop_block_def Let_def c_incr_def split: if_splits option.splits)
  have "a' = a1"
    using a2 1 False by (auto simp: EMGTask_baseline_block_def Let_def)
  with 1 show ?thesis by simp
qed

text \<open>
  From boot on, \<open>f_ref_established\<close> stays false and \<open>fatigue_consecutive\<close> never
  decreases: the only assignment of the flag (line 302) and the reset of the counter
  (line 331) are inside the block entered with \<open>window_counter > BASELINE_WINDOWS\<close>, where
  the flag is set only at \<open>window_counter == BASELINE_WINDOWS\<close> and the reset needs the flag.
\<close>

lemma EMGTask_window_no_reset:
  assumes "EMGTask_window r mn m a = Some a'" and "\<not> f_ref_established a"
  shows "\<not> f_ref_established a' \<and> fatigue_consecutive a \<le> fatigue_consecutive a'"
proof -
  let ?a0 = "a\<lparr>window_counter := window_counter a + 1, rms_value := r, f_mean := mn, f_median := m\<rparr>"
  have a0: "EMGTask_reference_block ?a0 = Some a'"
    using assms(1) by (auto simp: EMGTask_window_def c_incr_def bind_eq_Some_conv split: if_splits)
  show ?thesis
  proof (cases "window_counter ?a0 = BASELINE_WINDOWS")
    case True
    then show ?thesis
      using a0 assms(2) by (auto simp: EMGTask_reference_block_def Let_def)
  next
    case False
    then have "BASELINE_WINDOWS < window_counter ?a0 \<or> window_counter ?a0 < BASELINE_WINDOWS"
      by auto
    from EMGTask_reference_block_no_reset [OF a0 _ this] assms(2) show ?thesis by simp
  qed
qed

lemma EMGTask_medians_no_reset:
  "EMGTask_medians ms a = Some a' \<Longrightarrow> \<not> f_ref_established a \<Longrightarrow>
   \<not> f_ref_established a' \<and> fatigue_consecutive a \<le> fatigue_consecutive a'"
proof (induction ms arbitrary: a)
  case Nil
  then show ?case by simp
next
  case (Cons m ms)
  obtain a1 where a1: "EMGTask_window (rms_value a) (f_mean a) m a = Some a1"
    and r: "EMGTask_medians ms a1 = Some a'"
    using Cons.prems(1) by (auto split: option.splits)
  from EMGTask_window_no_reset [OF a1 Cons.prems(2)] Cons.IH [OF r] show ?case by auto
qed

lemmas classifier_eval =
  EMGTask_window_def EMGTask_reference_block_def EMGTask_drop_block_def
  EMGTask_baseline_block_def c_incr_def Let_def
  BASELINE_WINDOWS_def CONSECUTIVE_WINDOWS_def INT_MAX_def
  analysis_boot_fields session_arith

text \<open>
  Claim C6. From any state in which \<open>fatigue_detected\<close> is set, every sequence of
  windows that keeps the two counters below \<open>INT_MAX\<close> (a window adds one to
  \<open>window_counter\<close> and at most two to \<open>fatigue_consecutive\<close>) is processed to the end,
  and \<open>fatigue_detected\<close> is set in the state it leaves.
\<close>

theorem fatigue_detected_latched:
  assumes "fatigue_detected a"
    and "window_counter a + int (length ms) \<le> INT_MAX"
    and "0 \<le> fatigue_consecutive a"
    and "fatigue_consecutive a + 2 * int (length ms) \<le> INT_MAX"
  shows "\<exists>a'. EMGTask_medians ms a = Some a' \<and> fatigue_detected a'"
  using EMGTask_medians_Some [OF assms(2-4)] EMGTask_medians_detected assms(1) by blast

lemma session_latched:
  "\<exists>a. EMGTask_medians [Fin 100, Fin 100, Fin 100, Fin 100, Fin 100, Fin 80, Fin 80, Fin 80]
          analysis_boot = Some a \<and>
        window_counter a = 8 \<and> f_ref a = Fin 100 \<and> fatigue_consecutive a = 3 \<and>
        fatigue_detected a \<and> \<not> f_ref_established a"
  by (simp add: classifier_eval)

text \<open>
  The session of five windows at 100 Hz and three at 80 Hz sets the flag; a window at
  100 Hz (no drop) and one at 80 Hz (a drop of 20 %) after it leave the flag set.
\<close>

theorem fatigue_detected_latched_witness:
  "\<exists>a a'. EMGTask_medians [Fin 100, Fin 100, Fin 100, Fin 100, Fin 100, Fin 80, Fin 80, Fin 80]
             analysis_boot = Some a \<and> fatigue_detected a \<and>
          EMGTask_medians [Fin 100, Fin 80] a = Some a' \<and> fatigue_detected a'"
proof -
  obtain a where a: "EMGTask_medians [Fin 100, Fin 100, Fin 100, Fin 100, Fin 100, Fin 80, Fin 80, Fin 80]
             analysis_boot = Some a"
    and fa: "window_counter a = 8" "fatigue_consecutive a = 3" "fatigue_detected a"
    using session_latched by blast
  have "\<exists>a'. EMGTask_medians [Fin 100, Fin 80] a = Some a' \<and> fatigue_detected a'"
    using fatigue_detected_latched [of a "[Fin 100, Fin 80]"] fa by (simp add: INT_MAX_def)
  with a fa show ?thesis by blast
qed

text \<open>
  Claim C2 fails on the code. After five baseline windows at 100 Hz (\<open>f_ref = 100\<close>) and
  two windows at 80 Hz the counter \<open>fatigue_consecutive\<close> is 2; the next window, at 100 Hz
  (a drop of 0, not above the threshold), in the monitoring phase, leaves it at 2: the
  reset of line 331 is not reached, because \<open>f_ref_established\<close> is still false.
\<close>

theorem recovery_keeps_counter:
  "\<exists>a b. EMGTask_medians [Fin 100, Fin 100, Fin 100, Fin 100, Fin 100, Fin 80, Fin 80]
            analysis_boot = Some a \<and>
          f_ref a = Fin 100 \<and> fatigue_consecutive a = 2 \<and>
          EMGTask_medians [Fin 100, Fin 100, Fin 100, Fin 100, Fin 100, Fin 80, Fin 80, Fin 100]
            analysis_boot = Some b \<and>
          window_counter b = 8 \<and> f_ref b = Fin 100 \<and> fatigue_consecutive b = 2 \<and>
          \<not> f_ref_established b"
  by (simp add: classifier_eval)

text \<open>
  Claim C4 fails on the code. \<open>f_ref\<close> is written at every baseline window, not once at
  the end of the baseline: after the first window at 100 Hz it is 100, after the fourth
  it is 400 (line 260 accumulates in \<open>f_ref\<close> itself), and \<open>f_ref_established\<close> is false.
\<close>

theorem f_ref_written_during_baseline:
  "\<exists>a b. EMGTask_medians [Fin 100] analysis_boot = Some a \<and> window_counter a = 1 \<and>
          f_ref a = Fin 100 \<and> \<not> f_ref_established a \<and>
          EMGTask_medians [Fin 100, Fin 100, Fin 100, Fin 100] analysis_boot = Some b \<and>
          window_counter b = 4 \<and> f_ref b = Fin 400 \<and> \<not> f_ref_established b"
  by (simp add: classifier_eval)

text \<open>
  Claim C5 fails on the code. After five baseline windows at 100 Hz, the windows at 80,
  100, 80 and 80 Hz: the window at 100 Hz ends the first run of drops, the second run has
  two windows, and \<open>fatigue_detected\<close> is false after the first of them and true after
  the second, short of \<open>CONSECUTIVE_WINDOWS = 3\<close>.
\<close>

theorem fatigue_detected_at_second_window:
  "\<exists>a b. EMGTask_medians
            [Fin 100, Fin 100, Fin 100, Fin 100, Fin 100, Fin 80, Fin 100, Fin 80]
            analysis_boot = Some a \<and>
          f_ref a = Fin 100 \<and> window_counter a = 8 \<and> \<not> fatigue_detected a \<and>
          EMGTask_medians
            [Fin 100, Fin 100, Fin 100, Fin 100, Fin 100, Fin 80, Fin 100, Fin 80, Fin 80]
            analysis_boot = Some b \<and>
          window_counter b = 9 \<and> fatigue_detected b"
  by (simp add: classifier_eval)

text \<open>
  The other reading of the braces (\<open>EMGTask_window_indented\<close>). The flag is latched
  there as well; the same sessions give: the reference written during the baseline, the
  flag set at the second window of the second run of drops, and, there only, the counter
  reset by a window without a drop.
\<close>

lemma EMGTask_window_indented_detected:
  assumes "EMGTask_window_indented r mn m a = Some a'" and "fatigue_detected a"
  shows "fatigue_detected a'"
proof -
  obtain n a1 where n: "c_incr (window_counter a) = Some n"
    and a1: "EMGTask_reference_block_indented
               (a\<lparr>window_counter := n, rms_value := r, f_mean := mn, f_median := m\<rparr>) = Some a1"
    and a2: "EMGTask_baseline_block a1 = Some a'"
    using assms(1) by (auto simp: EMGTask_window_indented_def bind_eq_Some_conv)
  have "fatigue_detected a1"
    using a1 assms(2) EMGTask_drop_block_detected
    by (auto simp: EMGTask_reference_block_indented_def Let_def split: if_splits)
  then show ?thesis
    using a2 by (rule EMGTask_baseline_block_detected [rotated])
qed

lemma EMGTask_medians_indented_detected:
  "EMGTask_medians_indented ms a = Some a' \<Longrightarrow> fatigue_detected a \<Longrightarrow> fatigue_detected a'"
proof (induction ms arbitrary: a)
  case Nil
  then show ?case by simp
next
  case (Cons m ms)
  then show ?case
    by (auto split: option.splits dest: EMGTask_window_indented_detected)
qed

lemmas classifier_indented_eval =
  EMGTask_window_indented_def EMGTask_reference_block_indented_def EMGTask_drop_block_def
  EMGTask_baseline_block_def c_incr_def Let_def
  BASELINE_WINDOWS_def CONSECUTIVE_WINDOWS_def INT_MAX_def
  analysis_boot_fields session_arith

lemma indented_reference_written_during_baseline:
  "\<exists>a b. EMGTask_medians_indented [Fin 100] analysis_boot = Some a \<and> window_counter a = 1 \<and>
          f_ref a = Fin 100 \<and> \<not> f_ref_established a \<and>
          EMGTask_medians_indented [Fin 100, Fin 100, Fin 100, Fin 100] analysis_boot = Some b \<and>
          window_counter b = 4 \<and> f_ref b = Fin 400 \<and> \<not> f_ref_established b"
  by (simp add: classifier_indented_eval)

lemma indented_detected_at_second_window:
  "\<exists>a b. EMGTask_medians_indented
            [Fin 100, Fin 100, Fin 100, Fin 100, Fin 100, Fin 80, Fin 100, Fin 80]
            analysis_boot = Some a \<and>
          f_ref a = Fin 100 \<and> window_counter a = 8 \<and> \<not> fatigue_detected a \<and>
          EMGTask_medians_indented
            [Fin 100, Fin 100, Fin 100, Fin 100, Fin 100, Fin 80, Fin 100, Fin 80, Fin 80]
            analysis_boot = Some b \<and>
          window_counter b = 9 \<and> fatigue_detected b"
  by (simp add: classifier_indented_eval)

lemma indented_session_latched:
  "\<exists>a b. EMGTask_medians_indented
            [Fin 100, Fin 100, Fin 100, Fin 100, Fin 100, Fin 80, Fin 80, Fin 80]
            analysis_boot = Some a \<and> fatigue_detected a \<and>
          EMGTask_medians_indented [Fin 100, Fin 80] a = Some b \<and> fatigue_detected b"
  by (simp add: classifier_indented_eval)

lemma indented_recovery_resets_counter:
  "\<exists>b. EMGTask_medians_indented
          [Fin 100, Fin 100, Fin 100, Fin 100, Fin 100, Fin 80, Fin 100]
          analysis_boot = Some b \<and>
        window_counter b = 7 \<and> f_ref b = Fin 100 \<and> f_ref_established b \<and>
        fatigue_consecutive b = 0"
  by (simp add: classifier_indented_eval)

subsection \<open>The analysis cycle\<close>

lemma CalcRMS_loop_zero:
  "0 \<le> i \<Longrightarrow> len \<le> int (length data) \<Longrightarrow> \<forall>j<nat len. data ! j = Fin 0 \<Longrightarrow>
   CalcRMS_loop data len i (Fin 0) = Some (Fin 0)"
proof (induction data len i "Fin 0" rule: CalcRMS_loop.induct)
  case (1 data len i)
  show ?case
  proof (cases "i < len")
    case True
    have di: "at_index data i = Some (Fin 0)"
      using True "1.prems" by (simp add: at_index_def)
    have z: "fadd (Fin 0) (fmul (Fin 0) (Fin 0)) = Fin 0"
      by (simp add: fmul_zero_zero fadd_zero_zero fzero_def)
    have "CalcRMS_loop data len (i + 1) (Fin 0) = Some (Fin 0)"
      using "1.hyps" [OF True di] z "1.prems" by simp
    then show ?thesis
      using True di z by (subst CalcRMS_loop.simps) simp
  next
    case False
    then show ?thesis by (subst CalcRMS_loop.simps) simp
  qed
qed

lemma half_buffer: "BUFFER_SIZE sdiv 2 = 256"
  unfolding BUFFER_SIZE_def by (simp add: signed_divide_int_def)

lemma fdiv_0_512: "fdiv (Fin 0) (Fin 512) = Fin 0"
  by (simp add: f32_unfold)

lemma CalcRMS_zero: "CalcRMS (replicate (nat BUFFER_SIZE) (Fin 0)) BUFFER_SIZE = Some (Fin 0)"
proof -
  have "CalcRMS_loop (replicate (nat BUFFER_SIZE) (Fin 0)) BUFFER_SIZE 0 (Fin 0) = Some (Fin 0)"
    by (intro CalcRMS_loop_zero) simp_all
  moreover have "f32_of_int BUFFER_SIZE = Fin 512"
    by (simp add: BUFFER_SIZE_def f32_of_int_512)
  ultimately show ?thesis
    by (simp add: CalcRMS_def fdiv_0_512 fsqrt_zero)
qed

lemma sum32_zero: "sum32 (replicate n (Fin 0)) = Fin 0"
proof -
  have "foldl fadd (Fin 0) (replicate n (Fin 0)) = Fin 0"
    by (induction n) (simp_all add: fadd_zero_zero fzero_def)
  then show ?thesis by (simp add: sum32_def)
qed

lemma CalcMeanFreq_zero:
  "0 \<le> len \<Longrightarrow> len \<le> int (length freqs) \<Longrightarrow>
   CalcMeanFreq (replicate (nat len) (Fin 0)) freqs len = Some (Fin 0)"
  using CalcMeanFreq_folds [of len "replicate (nat len) (Fin 0)" freqs]
  by (simp add: sum32_zero not_fgt_zero_zero)

lemma CalcMedianFreq_zero:
  assumes "0 < len" and "len \<le> int (length freqs)"
  shows "CalcMedianFreq (replicate (nat len) (Fin 0)) freqs len = Some (freqs ! 0)"
  using assms by (intro CalcMedianFreq_zero_first) (simp_all add: fzero_def)

lemma CircularBufferReadWindow_underrun:
  "uint (sample_count rb) < SIZE \<Longrightarrow> CircularBufferReadWindow SIZE LEN rb window = Some window"
  by (simp add: CircularBufferReadWindow_def)

lemma EMGTask_window_frame:
  assumes "EMGTask_window r mn m a = Some a'"
  shows "emg_window a' = emg_window a \<and> window_counter a' = window_counter a + 1"
proof -
  let ?a0 = "a\<lparr>window_counter := window_counter a + 1, rms_value := r, f_mean := mn, f_median := m\<rparr>"
  have a0: "EMGTask_reference_block ?a0 = Some a'"
    using assms by (auto simp: EMGTask_window_def c_incr_def bind_eq_Some_conv split: if_splits)
  show ?thesis
  proof (cases "window_counter ?a0 \<le> BASELINE_WINDOWS \<or> \<not> fgt (f_ref ?a0) (Fin 0)")
    case True
    then show ?thesis
      using a0 by (auto simp: EMGTask_reference_block_def Let_def split: if_splits)
  next
    case False
    then obtain a1 where a1: "EMGTask_drop_block ?a0 = Some a1"
      and a2: "EMGTask_baseline_block a1 = Some a'"
      using a0 by (auto simp: EMGTask_reference_block_def bind_eq_Some_conv)
    show ?thesis
      using EMGTask_drop_block_frame [OF a1] EMGTask_baseline_block_frame [OF a2] by simp
  qed
qed

lemma EMGTask_analyse_frame:
  assumes "EMGTask_analyse K window (a, k) = Some (a', k')"
  shows "emg_window a' = window \<and> window_counter a' = window_counter a + 1"
proof -
  obtain filt fft filt_fft freqs r mn m
    where "EMGTask_window r mn m
             (a\<lparr>emg_window := window, emg_filt := filt, emg_fft := fft,
                emg_filt_fft := filt_fft, f_axis := freqs\<rparr>) = Some a'"
    using assms
    by (auto simp: EMGTask_analyse_def Let_def case_prod_beta bind_eq_Some_conv)
  from EMGTask_window_frame [OF this] show ?thesis by simp
qed

text \<open>The latch and the window count hold for a whole cycle, whatever the kernels are.\<close>

lemma EMGTask_cycle_detected:
  assumes "EMGTask_cycle K rb (a, k) = Some (a', k')" and "fatigue_detected a"
  shows "fatigue_detected a'"
proof -
  obtain window filt fft filt_fft freqs r mn m
    where "EMGTask_window r mn m
             (a\<lparr>emg_window := window, emg_filt := filt, emg_fft := fft,
                emg_filt_fft := filt_fft, f_axis := freqs\<rparr>) = Some a'"
    using assms(1)
    by (auto simp: EMGTask_cycle_def EMGTask_analyse_def Let_def case_prod_beta bind_eq_Some_conv)
  from EMGTask_window_detected [OF this] assms(2) show ?thesis by simp
qed

lemma EMGTask_cycle_underrun:
  assumes "uint (sample_count rb) < BUFFER_SIZE"
  shows "EMGTask_cycle K rb (a, k) = EMGTask_analyse K (emg_window a) (a, k)"
proof -
  have "CircularBufferReadWindow BUFFER_SIZE EMG_BUFFER_LEN rb (emg_window a) = Some (emg_window a)"
    using assms by (rule CircularBufferReadWindow_underrun)
  then show ?thesis
    unfolding EMGTask_cycle_def by simp
qed

text \<open>
  With fewer than \<open>BUFFER_SIZE\<close> valid samples the cycle is the analysis of the previous
  contents of \<open>emg_window\<close>, and when it completes it has counted one more window.
\<close>

lemma underrun_cycle_not_skipped:
  assumes "uint (sample_count rb) < BUFFER_SIZE"
  shows "CircularBufferReadWindow BUFFER_SIZE EMG_BUFFER_LEN rb (emg_window a) = Some (emg_window a) \<and>
         EMGTask_cycle K rb (a, k) = EMGTask_analyse K (emg_window a) (a, k) \<and>
         (\<forall>a' k'. EMGTask_cycle K rb (a, k) = Some (a', k') \<longrightarrow>
            emg_window a' = emg_window a \<and> window_counter a' = window_counter a + 1)"
proof (intro conjI allI impI)
  show "CircularBufferReadWindow BUFFER_SIZE EMG_BUFFER_LEN rb (emg_window a) = Some (emg_window a)"
    using assms by (rule CircularBufferReadWindow_underrun)
  show c: "EMGTask_cycle K rb (a, k) = EMGTask_analyse K (emg_window a) (a, k)"
    using assms by (rule EMGTask_cycle_underrun)
  fix a' k'
  assume "EMGTask_cycle K rb (a, k) = Some (a', k')"
  then have e: "EMGTask_analyse K (emg_window a) (a, k) = Some (a', k')"
    unfolding c .
  show "emg_window a' = emg_window a"
    using EMGTask_analyse_frame [OF e] by (rule conjunct1)
  show "window_counter a' = window_counter a + 1"
    using EMGTask_analyse_frame [OF e] by (rule conjunct2)
qed

text \<open>The first bin of the frequency axis of the idle kernels is 0 Hz.\<close>

lemma idle_axis_first:
  "map (\<lambda>i. fdiv (f32_of_int (SAMPLE_FREQ * int i)) (f32_of_int BUFFER_SIZE))
     [0..<nat (BUFFER_SIZE sdiv 2)] ! 0 = Fin 0"
proof -
  have "[0..<nat (BUFFER_SIZE sdiv 2)] ! 0 = 0" "0 < length [0..<nat (BUFFER_SIZE sdiv 2)]"
    by (simp_all add: half_buffer)
  then have "map (\<lambda>i. fdiv (f32_of_int (SAMPLE_FREQ * int i)) (f32_of_int BUFFER_SIZE))
     [0..<nat (BUFFER_SIZE sdiv 2)] ! 0 = fdiv (f32_of_int (SAMPLE_FREQ * int 0)) (f32_of_int BUFFER_SIZE)"
    by (simp only: nth_map)
  also have "\<dots> = fdiv (Fin 0) (Fin 512)"
    by (simp add: BUFFER_SIZE_def f32_of_int_512) (simp add: f32_of_int_def zero_of_def)
  finally show ?thesis by (simp add: fdiv_0_512)
qed

lemma EMGTask_analyse_idle:
  assumes "window_counter a < INT_MAX" and "0 \<le> fatigue_consecutive a"
    and "fatigue_consecutive a + 2 \<le> INT_MAX"
  shows "\<exists>a'. EMGTask_window (Fin 0) (Fin 0) (Fin 0)
                (a\<lparr>emg_window := replicate (nat BUFFER_SIZE) (Fin 0),
                   emg_filt := replicate (nat BUFFER_SIZE) (Fin 0),
                   emg_fft := replicate (nat (BUFFER_SIZE sdiv 2)) (Fin 0),
                   emg_filt_fft := replicate (nat (BUFFER_SIZE sdiv 2)) (Fin 0),
                   f_axis := map (\<lambda>i. fdiv (f32_of_int (SAMPLE_FREQ * int i)) (f32_of_int BUFFER_SIZE))
                               [0..<nat (BUFFER_SIZE sdiv 2)]\<rparr>) = Some a' \<and>
              EMGTask_analyse idle_kernels (replicate (nat BUFFER_SIZE) (Fin 0)) (a, ()) = Some (a', ())"
proof -
  let ?w = "replicate (nat BUFFER_SIZE) (Fin 0)"
  let ?m = "replicate (nat (BUFFER_SIZE sdiv 2)) (Fin 0)"
  let ?f = "map (\<lambda>i. fdiv (f32_of_int (SAMPLE_FREQ * int i)) (f32_of_int BUFFER_SIZE))
              [0..<nat (BUFFER_SIZE sdiv 2)]"
  have pos: "0 < BUFFER_SIZE sdiv 2"
    by (simp add: half_buffer)
  have lf: "int (length ?f) = BUFFER_SIZE sdiv 2"
    using pos by simp
  have rms: "CalcRMS ?w BUFFER_SIZE = Some (Fin 0)"
    by (rule CalcRMS_zero)
  have mean: "CalcMeanFreq ?m ?f (BUFFER_SIZE sdiv 2) = Some (Fin 0)"
    using pos lf by (intro CalcMeanFreq_zero) simp_all
  have "CalcMedianFreq ?m ?f (BUFFER_SIZE sdiv 2) = Some (?f ! 0)"
    using pos lf by (intro CalcMedianFreq_zero) simp_all
  then have med: "CalcMedianFreq ?m ?f (BUFFER_SIZE sdiv 2) = Some (Fin 0)"
    by (simp only: idle_axis_first)
  let ?a = "a\<lparr>emg_window := ?w, emg_filt := ?w, emg_fft := ?m, emg_filt_fft := ?m, f_axis := ?f\<rparr>"
  obtain a' where a': "EMGTask_window (Fin 0) (Fin 0) (Fin 0) ?a = Some a'"
    using EMGTask_window_Some [of ?a "Fin 0" "Fin 0" "Fin 0"] assms by auto
  have "EMGTask_analyse idle_kernels ?w (a, ()) = Some (a', ())"
    unfolding EMGTask_analyse_def idle_kernels_def
    using rms mean med a' by (simp del: replicate.simps upt.simps nth_map add: Let_def)
  with a' show ?thesis by blast
qed

lemma ring_boot_underrun: "uint (sample_count (ring_boot EMG_BUFFER_LEN)) < BUFFER_SIZE"
  by (simp add: ring_boot_def BUFFER_SIZE_def)

lemma emg_window_boot: "emg_window analysis_boot = replicate (nat BUFFER_SIZE) (Fin 0)"
  by (simp add: analysis_boot_def)

lemma fadd_0_0: "fadd (Fin 0) (Fin 0) = Fin 0"
  by (simp add: fadd_zero_zero fzero_def)

lemma EMGTask_cycle_boot:
  "\<exists>a'. EMGTask_cycle idle_kernels (ring_boot EMG_BUFFER_LEN) (analysis_boot, ()) = Some (a', ()) \<and>
        window_counter a' = 1 \<and> f_median a' = Fin 0 \<and> f_ref a' = Fin 0"
proof -
  obtain a' where w: "EMGTask_window (Fin 0) (Fin 0) (Fin 0)
                (analysis_boot\<lparr>emg_window := replicate (nat BUFFER_SIZE) (Fin 0),
                   emg_filt := replicate (nat BUFFER_SIZE) (Fin 0),
                   emg_fft := replicate (nat (BUFFER_SIZE sdiv 2)) (Fin 0),
                   emg_filt_fft := replicate (nat (BUFFER_SIZE sdiv 2)) (Fin 0),
                   f_axis := map (\<lambda>i. fdiv (f32_of_int (SAMPLE_FREQ * int i)) (f32_of_int BUFFER_SIZE))
                               [0..<nat (BUFFER_SIZE sdiv 2)]\<rparr>) = Some a'"
    and c: "EMGTask_analyse idle_kernels (replicate (nat BUFFER_SIZE) (Fin 0)) (analysis_boot, ())
          = Some (a', ())"
    using EMGTask_analyse_idle [of analysis_boot]
    by (auto simp: analysis_boot_fields INT_MAX_def)
  have "window_counter a' = 1 \<and> f_median a' = Fin 0 \<and> f_ref a' = Fin 0"
    using w
    by (auto simp: EMGTask_window_def EMGTask_reference_block_def c_incr_def Let_def
        BASELINE_WINDOWS_def INT_MAX_def analysis_boot_fields fadd_0_0)
  with c show ?thesis
    unfolding EMGTask_cycle_underrun [OF ring_boot_underrun] emg_window_boot by blast
qed

text \<open>
  Claim C1 fails on the code. At boot the buffer holds no sample, fewer than
  \<open>BUFFER_SIZE\<close>: \<^verbatim>\<open>CircularBufferReadWindow\<close> returns before the copy, but the cycle is not
  skipped. It analyses the zeros that \<open>emg_window\<close> holds, takes \<open>window_counter\<close> from 0
  to 1 and records a median frequency of 0 Hz as the first window of the baseline.
\<close>

theorem underrun_cycle_counts_window:
  "uint (sample_count (ring_boot EMG_BUFFER_LEN)) < BUFFER_SIZE \<and>
   window_counter analysis_boot = 0 \<and>
   (\<exists>a'. EMGTask_cycle idle_kernels (ring_boot EMG_BUFFER_LEN) (analysis_boot, ()) = Some (a', ()) \<and>
         window_counter a' = 1 \<and> f_median a' = Fin 0)"
  using EMGTask_cycle_boot ring_boot_underrun by (auto simp: analysis_boot_fields)

subsection \<open>The BLE command callback\<close>

text \<open>
  Claim C9. A message that starts with \<open>'B'\<close> sends the clear directive \<open>*HC*\<close>, waits
  50 ms and sends the acknowledgment; the ring buffer (contents, cursor, count) and
  the analysis state are returned as they were, and the analysis task is not notified.
\<close>

theorem read_data_clear_frame:
  "read_data (CHR ''B'' # rest) (rb, a) =
     Some ((rb, a),
           [BleSendString ''*HC*'', TaskDelay_ms 50,
            BleSendString (''*TLimpieza completada*'' @ [CHR 0x0A])])"
  by (simp add: read_data_def)

end
